theory Spec2Isabelle
  imports Main "HOL-Library.Word" "HOL-Library.Sublist"
begin

section \<open>Strings of the email worker\<close>

text \<open>
  A JavaScript string is a sequence of 16-bit code units. String literals of the source
  are written with \<open>js\<close>, which maps each ASCII character to its code unit.
\<close>

type_synonym cu = "16 word"
type_synonym jsstring = "cu list"

definition ch :: "char \<Rightarrow> cu" where
  "ch c = of_nat (of_char c)"

definition js :: "string \<Rightarrow> jsstring" where
  "js s = map ch s"

definition CR :: cu where "CR = 0x0D"
definition LF :: cu where "LF = 0x0A"

definition is_space :: "cu \<Rightarrow> bool" where
  \<comment> \<open>the set of \<open>\s\<close> and of \<open>String.prototype.trim\<close>: WhiteSpace and LineTerminator\<close>
  "is_space c \<longleftrightarrow>
     c \<in> {0x09, 0x0A, 0x0B, 0x0C, 0x0D, 0x20, 0xA0, 0x1680, 0x2028, 0x2029, 0x202F,
          0x205F, 0x3000, 0xFEFF} \<or> (0x2000 \<le> c \<and> c \<le> 0x200A)"

definition is_word :: "cu \<Rightarrow> bool" where
  \<comment> \<open>\<open>\w\<close>: ASCII letters, digits and the underscore\<close>
  "is_word c \<longleftrightarrow>
     (ch CHR ''A'' \<le> c \<and> c \<le> ch CHR ''Z'') \<or> (ch CHR ''a'' \<le> c \<and> c \<le> ch CHR ''z'') \<or>
     (ch CHR ''0'' \<le> c \<and> c \<le> ch CHR ''9'') \<or> c = ch CHR ''_''"

definition trim :: "jsstring \<Rightarrow> jsstring" where
  "trim s = rev (dropWhile is_space (rev (dropWhile is_space s)))"

section \<open>Regular expressions\<close>

text \<open>
  The fragment of ECMAScript regular expressions that the worker uses: literal
  characters, character classes, sequence, alternation, the greedy and the lazy star,
  the greedy option and one capturing group (no pattern of the source has more than one).
\<close>

datatype citem = CChar cu | CRange cu cu | CSpace | CNotSpace | CWord

datatype regex =
    Eps
  | Lit cu
  | Cls bool "citem list"
  | Seq regex regex
  | Alt regex regex
  | Opt regex
  | Star bool regex
  | Cap regex

text \<open>
  \<open>Cls neg items\<close> is \<open>[items]\<close>, or \<open>[^items]\<close> when \<open>neg\<close> holds;
  \<open>Star greedy r\<close> is \<open>r*\<close>, or \<open>r*?\<close> when \<open>greedy\<close> is false.
\<close>

definition plus :: "regex \<Rightarrow> regex" where
  \<comment> \<open>\<open>r+\<close>: one mandatory iteration, then the greedy star\<close>
  "plus r = Seq r (Star True r)"

definition twice :: "regex \<Rightarrow> regex" where
  \<comment> \<open>\<open>r{2}\<close>\<close>
  "twice r = Seq r r"

fun seqs :: "regex list \<Rightarrow> regex" where
  "seqs [] = Eps"
| "seqs [r] = r"
| "seqs (r # rs) = Seq r (seqs rs)"

definition lits :: "string \<Rightarrow> regex" where
  "lits s = seqs (map Lit (js s))"

definition to_upper :: "cu \<Rightarrow> cu" where
  "to_upper c = (if ch CHR ''a'' \<le> c \<and> c \<le> ch CHR ''z'' then c - 0x20 else c)"

definition to_lower :: "cu \<Rightarrow> cu" where
  "to_lower c = (if ch CHR ''A'' \<le> c \<and> c \<le> ch CHR ''Z'' then c + 0x20 else c)"

definition canon :: "bool \<Rightarrow> cu \<Rightarrow> cu" where
  \<comment> \<open>Canonicalize of a pattern without the \<open>u\<close> flag. Every character of the source's
      patterns is ASCII, and Canonicalize never maps a code unit from 128 on to one below
      128, so only the ASCII letters are folded.\<close>
  "canon ic c = (if ic then to_upper c else c)"

fun item_has :: "citem \<Rightarrow> cu \<Rightarrow> bool" where
  "item_has (CChar a) c = (c = a)"
| "item_has (CRange lo hi) c = (lo \<le> c \<and> c \<le> hi)"
| "item_has CSpace c = is_space c"
| "item_has CNotSpace c = (\<not> is_space c)"
| "item_has CWord c = is_word c"

definition cls_has :: "bool \<Rightarrow> citem list \<Rightarrow> cu \<Rightarrow> bool" where
  \<comment> \<open>some member \<open>a\<close> of the class has \<open>canon ic a = canon ic c\<close>\<close>
  "cls_has ic items c \<longleftrightarrow>
     (\<exists>i \<in> set items. item_has i c \<or> (ic \<and> (item_has i (to_upper c) \<or> item_has i (to_lower c))))"

type_synonym mstate = "jsstring option \<times> jsstring"

text \<open>
  The backtracking matcher, as the list of its successes in the order in which
  backtracking tries them: a state is the capture so far and the input still to be read.
  An iteration of a star or an option that consumes nothing is rejected, as RepeatMatcher
  does.
\<close>

function ms :: "bool \<Rightarrow> regex \<Rightarrow> mstate \<Rightarrow> mstate list" where
  "ms ic Eps st = [st]"
| "ms ic (Lit a) (cap, s) =
     (case s of [] \<Rightarrow> [] | c # cs \<Rightarrow> if canon ic c = canon ic a then [(cap, cs)] else [])"
| "ms ic (Cls neg items) (cap, s) =
     (case s of [] \<Rightarrow> [] | c # cs \<Rightarrow> if cls_has ic items c \<noteq> neg then [(cap, cs)] else [])"
| "ms ic (Seq a b) st = concat (map (ms ic b) (ms ic a st))"
| "ms ic (Alt a b) st = ms ic a st @ ms ic b st"
| "ms ic (Opt a) st = filter (\<lambda>st'. length (snd st') < length (snd st)) (ms ic a st) @ [st]"
| "ms ic (Star greedy a) st =
     (let more = concat (map (\<lambda>st'. if length (snd st') < length (snd st)
                                      then ms ic (Star greedy a) st' else [])
                             (ms ic a st))
      in if greedy then more @ [st] else st # more)"
| "ms ic (Cap a) (cap, s) =
     map (\<lambda>(cap', s'). (Some (take (length s - length s') s), s')) (ms ic a (cap, s))"
  by pat_completeness auto
termination
  by (relation "measures [\<lambda>(ic, r, st). size r, \<lambda>(ic, r, st). length (snd st)]") auto

declare ms.simps(7) [simp del]

definition match_at :: "bool \<Rightarrow> regex \<Rightarrow> jsstring \<Rightarrow> mstate option" where
  \<comment> \<open>the first success of the pattern at the head of the input\<close>
  "match_at ic r s = (case ms ic r (None, s) of [] \<Rightarrow> None | m # _ \<Rightarrow> Some m)"

fun search :: "bool \<Rightarrow> regex \<Rightarrow> jsstring \<Rightarrow> mstate option" where
  \<comment> \<open>\<open>s.match(r)\<close> without the \<open>g\<close> flag: the leftmost match, \<open>None\<close> for null\<close>
  "search ic r s =
     (case match_at ic r s of
        Some m \<Rightarrow> Some m
      | None \<Rightarrow> (case s of [] \<Rightarrow> None | _ # cs \<Rightarrow> search ic r cs))"

declare search.simps [simp del]

fun replace_all :: "bool \<Rightarrow> regex \<Rightarrow> (jsstring option \<Rightarrow> jsstring) \<Rightarrow> jsstring \<Rightarrow> jsstring" where
  \<comment> \<open>\<open>s.replace(r, f)\<close> with the \<open>g\<close> flag: one pass from left to right, \<open>f\<close> being
      given the captured group. A match ends inside the input, so it is empty exactly when
      its rest is not shorter; after an empty match the scan moves on by one code unit.\<close>
  "replace_all ic r f s =
     (case match_at ic r s of
        Some (cap, rest) \<Rightarrow>
          if length rest < length s then f cap @ replace_all ic r f rest
          else f cap @ (case s of [] \<Rightarrow> [] | c # cs \<Rightarrow> c # replace_all ic r f cs)
      | None \<Rightarrow> (case s of [] \<Rightarrow> [] | c # cs \<Rightarrow> c # replace_all ic r f cs))"

declare replace_all.simps [simp del]

section \<open>cleanBody\<close>

definition hex_digit :: "cu \<Rightarrow> nat option" where
  "hex_digit c =
     (if ch CHR ''0'' \<le> c \<and> c \<le> ch CHR ''9'' then Some (unat c - unat (ch CHR ''0''))
      else if ch CHR ''A'' \<le> c \<and> c \<le> ch CHR ''F'' then Some (unat c - unat (ch CHR ''A'') + 10)
      else if ch CHR ''a'' \<le> c \<and> c \<le> ch CHR ''f'' then Some (unat c - unat (ch CHR ''a'') + 10)
      else None)"

fun parse_hex :: "nat option \<Rightarrow> jsstring \<Rightarrow> nat option" where
  "parse_hex acc [] = acc"
| "parse_hex acc (c # cs) =
     (case hex_digit c of
        None \<Rightarrow> acc
      | Some d \<Rightarrow> parse_hex (Some ((case acc of None \<Rightarrow> 0 | Some a \<Rightarrow> 16 * a) + d)) cs)"

definition parseInt16 :: "jsstring option \<Rightarrow> nat option" where
  \<comment> \<open>\<open>parseInt(hex, 16)\<close> on a captured group: the value of the longest prefix of hex
      digits, \<open>None\<close> for NaN. (Leading white space, a sign and a \<open>0x\<close> prefix cannot
      occur in the group \<open>[0-9A-Fa-f]{2}\<close>; an undefined group reads as the text
      \<open>undefined\<close>, which has no hex digit in front.)\<close>
  "parseInt16 hex = (case hex of None \<Rightarrow> None | Some h \<Rightarrow> parse_hex None h)"

definition fromCharCode :: "nat option \<Rightarrow> jsstring" where
  \<comment> \<open>\<open>String.fromCharCode\<close>: ToUint16 of the number, 0 for NaN\<close>
  "fromCharCode n = (case n of None \<Rightarrow> [0] | Some k \<Rightarrow> [of_nat k])"

definition hex_class :: regex where
  "hex_class = Cls False [CRange (ch CHR ''0'') (ch CHR ''9''), CRange (ch CHR ''A'') (ch CHR ''F''),
                           CRange (ch CHR ''a'') (ch CHR ''f'')]"

definition soft_break_re :: regex where
  \<comment> \<open>\<open>/=\r?\n/g\<close>\<close>
  "soft_break_re = seqs [Lit (ch CHR ''=''), Opt (Lit CR), Lit LF]"

definition hex_escape_re :: regex where
  \<comment> \<open>\<open>/=([0-9A-Fa-f]{2})/g\<close>\<close>
  "hex_escape_re = seqs [Lit (ch CHR ''=''), Cap (twice hex_class)]"

definition spaces_re :: regex where
  \<comment> \<open>\<open>/\s+/g\<close>\<close>
  "spaces_re = plus (Cls False [CSpace])"

definition remove_soft_breaks :: "jsstring \<Rightarrow> jsstring" where
  "remove_soft_breaks text = replace_all False soft_break_re (\<lambda>_. []) text"

definition decode_hex_escapes :: "jsstring \<Rightarrow> jsstring" where
  "decode_hex_escapes text =
     replace_all False hex_escape_re (\<lambda>hex. fromCharCode (parseInt16 hex)) text"

definition collapse_spaces :: "jsstring \<Rightarrow> jsstring" where
  "collapse_spaces text = replace_all False spaces_re (\<lambda>_. js '' '') text"

definition cleanBody :: "jsstring \<Rightarrow> jsstring" where
  "cleanBody text = trim (collapse_spaces (decode_hex_escapes (remove_soft_breaks text)))"

section \<open>extractTextBody\<close>

datatype error = Thrown jsstring
  \<comment> \<open>a thrown value or the reason of a rejected promise, given by its rendering as text\<close>

definition type_error :: error where
  \<comment> \<open>calling \<open>replace\<close> on \<open>undefined\<close>\<close>
  "type_error = Thrown (js ''TypeError'')"

definition header_line_end :: "regex list" where
  \<comment> \<open>\<open>[^\r\n]*\r?\n\<close>\<close>
  "header_line_end = [Star True (Cls True [CChar CR, CChar LF]), Opt (Lit CR), Lit LF]"

definition part_headers :: "regex list" where
  \<comment> \<open>\<open>(?:[\w-]+:[^\r\n]*\r?\n)*\r?\n\<close>\<close>
  "part_headers =
     [Star True (seqs ([plus (Cls False [CWord, CChar (ch CHR ''-'')]), Lit (ch CHR '':'')]
                       @ header_line_end)),
      Opt (Lit CR), Lit LF]"

definition any_lazy :: regex where
  \<comment> \<open>\<open>[\s\S]*?\<close>\<close>
  "any_lazy = Star False (Cls False [CSpace, CNotSpace])"

definition plain_re :: regex where
  \<comment> \<open>\<open>/Content-Type:\s*text\/plain[^\r\n]*\r?\n(?:[\w-]+:[^\r\n]*\r?\n)*\r?\n([\s\S]*?)(?:\r?\n--|\r?\n\r?\n--)/i\<close>\<close>
  "plain_re =
     seqs ([lits ''Content-Type:'', Star True (Cls False [CSpace]), lits ''text/plain'']
           @ header_line_end @ part_headers @
           [Cap any_lazy,
            Alt (seqs [Opt (Lit CR), Lit LF, lits ''--''])
                (seqs [Opt (Lit CR), Lit LF, Opt (Lit CR), Lit LF, lits ''--''])])"

definition html_re :: regex where
  \<comment> \<open>\<open>/Content-Type:\s*text\/html[^\r\n]*\r?\n(?:[\w-]+:[^\r\n]*\r?\n)*\r?\n([\s\S]*?)(?:\r?\n--)/i\<close>\<close>
  "html_re =
     seqs ([lits ''Content-Type:'', Star True (Cls False [CSpace]), lits ''text/html'']
           @ header_line_end @ part_headers @
           [Cap any_lazy, seqs [Opt (Lit CR), Lit LF, lits ''--'']])"

definition style_re :: regex where
  \<comment> \<open>\<open>/<style[^>]*>[\s\S]*?<\/style>/gi\<close>\<close>
  "style_re =
     seqs [lits ''<style'', Star True (Cls True [CChar (ch CHR ''>'')]), Lit (ch CHR ''>''),
           any_lazy, lits ''</style>'']"

definition tag_re :: regex where
  \<comment> \<open>\<open>/<[^>]+>/g\<close>\<close>
  "tag_re = seqs [Lit (ch CHR ''<''), plus (Cls True [CChar (ch CHR ''>'')]), Lit (ch CHR ''>'')]"

definition strip_styles :: "jsstring \<Rightarrow> jsstring" where
  "strip_styles h = replace_all True style_re (\<lambda>_. []) h"

definition strip_tags :: "jsstring \<Rightarrow> jsstring" where
  "strip_tags h = replace_all False tag_re (\<lambda>_. js '' '') h"

definition replace_lit :: "string \<Rightarrow> string \<Rightarrow> jsstring \<Rightarrow> jsstring" where
  \<comment> \<open>\<open>.replace(/lit/g, "by")\<close> for a pattern of literal characters\<close>
  "replace_lit lit by h = replace_all False (lits lit) (\<lambda>_. js by) h"

definition decode_entities :: "jsstring \<Rightarrow> jsstring" where
  "decode_entities h =
     replace_lit ''&gt;'' ''>''
       (replace_lit ''&lt;'' ''<''
         (replace_lit ''&amp;'' ''&''
           (replace_lit ''&nbsp;'' '' '' h)))"

definition html_to_text :: "jsstring \<Rightarrow> jsstring" where
  "html_to_text h = decode_entities (strip_tags (strip_styles h))"

fun indexOf :: "jsstring \<Rightarrow> jsstring \<Rightarrow> int" where
  \<comment> \<open>\<open>s.indexOf(p)\<close>: the first index at which \<open>p\<close> occurs, or -1\<close>
  "indexOf s p =
     (if prefix p s then 0
      else case s of
             [] \<Rightarrow> - 1
           | _ # cs \<Rightarrow> (let i = indexOf cs p in if i < 0 then - 1 else i + 1))"

declare indexOf.simps [simp del]

definition group1 :: "mstate \<Rightarrow> error + jsstring" where
  \<comment> \<open>\<open>m[1]\<close> as the receiver of \<open>replace\<close>: a group that took no part is
      \<open>undefined\<close>\<close>
  "group1 m = (case fst m of None \<Rightarrow> Inl type_error | Some g \<Rightarrow> Inr g)"

definition extractTextBody :: "jsstring \<Rightarrow> error + jsstring" where
  "extractTextBody raw =
     (case search True plain_re raw of
        Some plainBoundaryMatch \<Rightarrow>
          (case group1 plainBoundaryMatch of Inl e \<Rightarrow> Inl e | Inr g \<Rightarrow> Inr (cleanBody g))
      | None \<Rightarrow>
          (case search True html_re raw of
             Some htmlMatch \<Rightarrow>
               (case group1 htmlMatch of
                  Inl e \<Rightarrow> Inl e
                | Inr g \<Rightarrow> Inr (cleanBody (html_to_text g)))
           | None \<Rightarrow>
               (let headerEnd = indexOf raw [CR, LF, CR, LF]
                in if headerEnd > 0 then Inr (cleanBody (drop (nat (headerEnd + 4)) raw))
                   else Inr (take 500 raw))))"

section \<open>The email handler\<close>

type_synonym bytes = "8 word list"

datatype read_result = Chunk "bytes option" | ReadFails error
  \<comment> \<open>one \<open>reader.read()\<close> that is not done: a value (or none), or a rejection\<close>

text \<open>
  A message as the platform hands it over. \<open>msg_raw\<close> is the stream of the raw message.
  A received message has a finite size, so the stream is the finite list of its reads
  that are not done, in order; the read after the last one is done.
\<close>

record message =
  msg_from :: jsstring
  msg_to :: jsstring
  msg_headers :: "jsstring \<Rightarrow> jsstring option"
  msg_raw :: "read_result list"

record env =
  WEBHOOK_URL :: jsstring

record payload =
  pl_source :: jsstring
  pl_from :: jsstring
  pl_to :: jsstring
  pl_subject :: jsstring
  pl_body :: jsstring
  pl_received_at :: jsstring

text \<open>
  A request of \<open>fetch\<close>. Its body is \<open>JSON.stringify(payload)\<close>, kept as the record that
  is serialised.
\<close>

record request =
  req_url :: jsstring
  req_method :: jsstring
  req_headers :: "(jsstring \<times> jsstring) list"
  req_body :: payload

text \<open>
  What the handler takes from its platform: the UTF-8 decoder, the clock and the network.
  \<open>fetch\<close> answers with the status of the response or rejects.
\<close>

record platform =
  decode :: "bytes \<Rightarrow> jsstring"
  now_iso :: jsstring
  fetch :: "request \<Rightarrow> error + nat"

datatype log_line = Log jsstring | LogError jsstring

record outcome =
  logs :: "log_line list"
  posts :: "request list"
  result :: "error + unit"

fun read_all :: "read_result list \<Rightarrow> bytes list \<Rightarrow> error + bytes list" where
  "read_all [] chunks = Inr chunks"
| "read_all (Chunk v # rs) chunks =
     read_all rs (case v of None \<Rightarrow> chunks | Some a \<Rightarrow> chunks @ [a])"
| "read_all (ReadFails e # rs) chunks = Inl e"

definition set_at :: "bytes \<Rightarrow> bytes \<Rightarrow> nat \<Rightarrow> bytes" where
  \<comment> \<open>\<open>result.set(arr, offset)\<close>, for an array that fits\<close>
  "set_at res arr offset = take offset res @ arr @ drop (offset + length arr) res"

definition concatenate :: "bytes list \<Rightarrow> bytes" where
  "concatenate arrays =
     (let totalLength = fold (\<lambda>arr sum. sum + length arr) arrays 0;
          res = replicate totalLength 0
      in fst (fold (\<lambda>arr (res, offset). (set_at res arr offset, offset + length arr))
                   arrays (res, 0)))"

fun digits :: "nat \<Rightarrow> jsstring" where
  \<comment> \<open>a number of a template literal, in decimal\<close>
  "digits n = (if n < 10 then [ch CHR ''0'' + of_nat n]
               else digits (n div 10) @ [ch CHR ''0'' + of_nat (n mod 10)])"

declare digits.simps [simp del]

definition dquote :: jsstring where
  \<comment> \<open>the double quote\<close>
  "dquote = [0x22]"

definition render :: "error \<Rightarrow> jsstring" where
  "render e = (case e of Thrown s \<Rightarrow> s)"

definition or_default :: "jsstring option \<Rightarrow> jsstring \<Rightarrow> jsstring" where
  \<comment> \<open>\<open>v || d\<close> for \<open>v\<close> a string or null: null and the empty string are falsy\<close>
  "or_default v d = (case v of None \<Rightarrow> d | Some s \<Rightarrow> if s = [] then d else s)"

definition build_payload :: "jsstring \<Rightarrow> jsstring \<Rightarrow> jsstring \<Rightarrow> jsstring \<Rightarrow> jsstring \<Rightarrow> payload" where
  "build_payload from to subject body now =
     \<lparr>pl_source = js ''email'', pl_from = from, pl_to = to, pl_subject = subject,
      pl_body = take 2000 body, pl_received_at = now\<rparr>"

definition email :: "platform \<Rightarrow> message \<Rightarrow> env \<Rightarrow> outcome" where
  "email p message env =
     (let from = msg_from message;
          to = msg_to message;
          subject = or_default (msg_headers message (js ''subject'')) (js ''(no subject)'')
      in case read_all (msg_raw message) [] of
           Inl e \<Rightarrow> \<lparr>logs = [], posts = [], result = Inl e\<rparr>
         | Inr chunks \<Rightarrow>
             (let rawEmail = decode p (concatenate chunks)
              in case extractTextBody rawEmail of
                   Inl e \<Rightarrow> \<lparr>logs = [], posts = [], result = Inl e\<rparr>
                 | Inr body \<Rightarrow>
                     (let pl = build_payload from to subject body (now_iso p);
                          received = Log (js ''Email received: from='' @ from @ js '' subject='' @ dquote
                                          @ subject @ dquote);
                          req = \<lparr>req_url = WEBHOOK_URL env, req_method = js ''POST'',
                                 req_headers = [(js ''Content-Type'', js ''application/json'')],
                                 req_body = pl\<rparr>
                      in case fetch p req of
                           Inr status \<Rightarrow>
                             \<lparr>logs = [received, Log (js ''Webhook response: '' @ digits status)],
                              posts = [req], result = Inr ()\<rparr>
                         | Inl err \<Rightarrow>
                             \<lparr>logs = [received, LogError (js ''Webhook POST failed: '' @ render err)],
                              posts = [req], result = Inr ()\<rparr>)))"

section \<open>Where a pattern captures\<close>

fun nocap :: "regex \<Rightarrow> bool" where
  \<comment> \<open>the pattern has no capturing group\<close>
  "nocap (Cap a) = False"
| "nocap (Seq a b) = (nocap a \<and> nocap b)"
| "nocap (Alt a b) = (nocap a \<and> nocap b)"
| "nocap (Opt a) = nocap a"
| "nocap (Star g a) = nocap a"
| "nocap _ = True"

fun caps :: "regex \<Rightarrow> bool" where
  \<comment> \<open>every match of the pattern goes through its capturing group\<close>
  "caps (Cap a) = True"
| "caps (Seq a b) = (caps a \<and> nocap b \<or> caps b)"
| "caps (Alt a b) = (caps a \<and> caps b)"
| "caps _ = False"

section \<open>White space, by recursion on the text\<close>

text \<open>
  What \<open>/\s+/g\<close> with the replacement of one space computes, written as a recursion
  on the text, and the texts it produces: every white-space character is a single space
  that no white space follows.
\<close>

definition SP :: cu where
  "SP = 0x20"

function squeeze :: "jsstring \<Rightarrow> jsstring" where
  "squeeze [] = []"
| "squeeze (c # cs) = (if is_space c then SP # squeeze (dropWhile is_space cs) else c # squeeze cs)"
  by pat_completeness auto
termination
  by (relation "measure length") (auto simp: length_dropWhile_le le_imp_less_Suc)

fun tidy :: "jsstring \<Rightarrow> bool" where
  "tidy [] = True"
| "tidy (c # cs) =
     ((is_space c \<longrightarrow> c = SP \<and> (case cs of [] \<Rightarrow> True | d # _ \<Rightarrow> \<not> is_space d)) \<and> tidy cs)"


section \<open>Soft line breaks, by recursion on the text\<close>

text \<open>
  The removal of soft line breaks as the specification words it: an \<open>=\<close> that a line
  ending (CR LF or LF) follows goes away with that line ending, from left to right.
\<close>

fun drop_soft_breaks :: "jsstring \<Rightarrow> jsstring" where
  "drop_soft_breaks [] = []"
| "drop_soft_breaks (c # cs) =
     (if c = ch CHR ''='' \<and> prefix [CR, LF] cs then drop_soft_breaks (drop 2 cs)
      else if c = ch CHR ''='' \<and> prefix [LF] cs then drop_soft_breaks (drop 1 cs)
      else c # drop_soft_breaks cs)"

section \<open>The shape of a MIME part\<close>

text \<open>
  The words of the specification for the first step of the chain: a
  \<open>Content-Type: text/plain\<close> header line in any letter case with parameters up to the
  end of the line, header lines \<open>name: value\<close> right after it, a blank line, the
  content, and a line that begins with \<open>--\<close>.
\<close>

definition letter :: "cu \<Rightarrow> bool" where
  "letter a \<longleftrightarrow>
     (ch CHR ''A'' \<le> a \<and> a \<le> ch CHR ''Z'') \<or> (ch CHR ''a'' \<le> a \<and> a \<le> ch CHR ''z'')"

definition ci_prefix :: "jsstring \<Rightarrow> jsstring \<Rightarrow> bool" where
  \<comment> \<open>the text begins with \<open>p\<close>, up to the case of ASCII letters\<close>
  "ci_prefix p t \<longleftrightarrow> length p \<le> length t \<and> map to_upper (take (length p) t) = map to_upper p"

definition ci_eq :: "jsstring \<Rightarrow> jsstring \<Rightarrow> bool" where
  \<comment> \<open>the text is \<open>p\<close>, up to the case of ASCII letters\<close>
  "ci_eq t p \<longleftrightarrow> map to_upper t = map to_upper p"

definition eol :: "jsstring \<Rightarrow> bool" where
  "eol e \<longleftrightarrow> e = [LF] \<or> e = [CR, LF]"

definition after_eol :: "jsstring \<Rightarrow> jsstring option" where
  \<comment> \<open>the text after the line ending at its head, if there is one\<close>
  "after_eol t = (if prefix [CR, LF] t then Some (drop 2 t)
                  else if prefix [LF] t then Some (drop 1 t) else None)"

fun none_before :: "(jsstring \<Rightarrow> bool) \<Rightarrow> jsstring \<Rightarrow> jsstring \<Rightarrow> bool" where
  \<comment> \<open>\<open>P\<close> holds at no position of \<open>xs\<close> in the text \<open>xs @ rest\<close>\<close>
  "none_before P [] rest = True"
| "none_before P (c # cs) rest = (\<not> P ((c # cs) @ rest) \<and> none_before P cs rest)"











definition style_block :: "jsstring \<Rightarrow> jsstring \<Rightarrow> jsstring \<Rightarrow> jsstring \<Rightarrow> jsstring \<Rightarrow> bool" where
  \<comment> \<open>a style block \<open>opn attrs > body cls\<close> in front of \<open>v\<close>: \<open>opn\<close> is \<open><style\<close> and \<open>cls\<close> is
      \<open></style>\<close> in any letter case, and the body holds no earlier \<open></style>\<close>\<close>
  "style_block opn attrs body cls v \<longleftrightarrow>
     ci_eq opn (js ''<style'') \<and> ch CHR ''>'' \<notin> set attrs \<and> ci_eq cls (js ''</style>'') \<and>
     none_before (ci_prefix (js ''</style>'')) body (cls @ v)"

fun tag_free :: "jsstring \<Rightarrow> bool" where
  \<comment> \<open>no \<open><\<close> of the text has a \<open>>\<close> behind it with something in between\<close>
  "tag_free [] = True"
| "tag_free (c # cs) =
     ((c = ch CHR ''<'' \<longrightarrow> cs = [] \<or> hd cs = ch CHR ''>'' \<or> ch CHR ''>'' \<notin> set cs) \<and> tag_free cs)"

section \<open>Parts of the two section patterns\<close>

definition header_re :: regex where
  \<comment> \<open>\<open>[\w-]+:[^\r\n]*\r?\n\<close>\<close>
  "header_re = seqs ([plus (Cls False [CWord, CChar (ch CHR ''-'')]), Lit (ch CHR '':'')] @ header_line_end)"


definition section_tail :: "regex \<Rightarrow> regex" where
  \<comment> \<open>\<open>[^\r\n]*\r?\n(?:[\w-]+:[^\r\n]*\r?\n)*\r?\n([\s\S]*?)\<close> and the end \<open>b\<close>\<close>
  "section_tail b =
     Seq (Star True (Cls True [CChar CR, CChar LF]))
       (Seq (Opt (Lit CR)) (Seq (Lit LF)
         (Seq (Star True header_re)
           (Seq (Opt (Lit CR)) (Seq (Lit LF)
             (Seq (Cap any_lazy) b))))))"

section \<open>Example inputs\<close>

definition crlf :: jsstring where
  "crlf = [CR, LF]"

definition p_down :: platform where
  \<comment> \<open>a platform whose network refuses every connection\<close>
  "p_down = \<lparr>decode = map ucast, now_iso = js ''2024-01-01T00:00:00.000Z'',
             fetch = (\<lambda>_. Inl (Thrown (js ''refused'')))\<rparr>"

definition m_hi :: message where
  \<comment> \<open>a message with an empty subject header whose raw text \<open>hi\<close> comes in three reads\<close>
  "m_hi = \<lparr>msg_from = js ''a@x'', msg_to = js ''b@y'', msg_headers = (\<lambda>_. Some []),
           msg_raw = [Chunk (Some [0x68]), Chunk None, Chunk (Some [0x69])]\<rparr>"

definition e_hook :: env where
  "e_hook = \<lparr>WEBHOOK_URL = js ''https://h''\<rparr>"

definition req_hi :: request where
  "req_hi =
     \<lparr>req_url = js ''https://h'', req_method = js ''POST'',
      req_headers = [(js ''Content-Type'', js ''application/json'')],
      req_body = \<lparr>pl_source = js ''email'', pl_from = js ''a@x'', pl_to = js ''b@y'',
                  pl_subject = js ''(no subject)'', pl_body = js ''hi'',
                  pl_received_at = js ''2024-01-01T00:00:00.000Z''\<rparr>\<rparr>"

definition doc_amp :: jsstring where
  \<comment> \<open>an HTML part with the text \<open>&amp;lt;\<close>\<close>
  "doc_amp = js ''Content-Type: text/html'' @ [LF, LF] @ js ''&amp;lt;'' @ [LF] @ js ''--''"

definition doc_escaped_tag :: jsstring where
  \<comment> \<open>an HTML part with the text \<open>&lt;b&gt;\<close>\<close>
  "doc_escaped_tag =
     js ''Content-Type: text/html'' @ [LF, LF] @ js ''&lt;b&gt;'' @ [LF] @ js ''--''"

definition doc_blank_first :: jsstring where
  \<comment> \<open>a document that begins with the blank line\<close>
  "doc_blank_first = crlf @ crlf @ js ''a  b''"





definition g_page :: jsstring where
  \<comment> \<open>HTML with a style block in capitals, and no \<open>&\<close> or \<open>=\<close>\<close>
  "g_page =
     js ''<p>'' @ js ''<STYLE'' @ js '' media'' @ ch CHR ''>'' # js ''p{}'' @ js ''</Style>'' @
     js ''Hi <b>you</b></p>''"

definition doc_page :: jsstring where
  "doc_page = js ''Content-Type: text/html'' @ [LF, LF] @ g_page @ [LF] @ js ''--''"

definition doc_entities :: jsstring where
  \<comment> \<open>an HTML part with entities and no \<open>&amp;\<close>\<close>
  "doc_entities =
     js ''Content-Type: text/html'' @ [LF, LF] @ js ''a&nbsp;&lt;b&gt;c'' @ [LF] @ js ''--''"

section \<open>Facts about the matcher\<close>

lemmas re_defs = plain_re_def html_re_def header_line_end_def part_headers_def any_lazy_def
  lits_def plus_def twice_def style_re_def tag_re_def soft_break_re_def hex_escape_re_def
  spaces_re_def hex_class_def

lemmas ev_defs = js_def ch_def CR_def LF_def crlf_def canon_def to_upper_def to_lower_def
  cls_has_def is_space_def is_word_def match_at_def ms.simps(7) search.simps replace_all.simps
  indexOf.simps Let_def

lemmas clean_defs = cleanBody_def trim_def collapse_spaces_def decode_hex_escapes_def
  remove_soft_breaks_def fromCharCode_def parseInt16_def hex_digit_def

lemmas extract_defs = extractTextBody_def group1_def html_to_text_def decode_entities_def
  replace_lit_def strip_styles_def strip_tags_def

lemma ms_Star_cases:
  assumes "st' \<in> set (ms ic (Star greedy a) st)"
  obtains "st' = st"
  | mid where "mid \<in> set (ms ic a st)" "length (snd mid) < length (snd st)"
      "st' \<in> set (ms ic (Star greedy a) mid)"
  using assms by (subst (asm) ms.simps(7)) (auto simp: Let_def split: if_splits)

text \<open>A match ends inside the input it started on.\<close>

lemma ms_suffix: "st' \<in> set (ms ic r st) \<Longrightarrow> suffix (snd st') (snd st)"
proof (induction ic r st arbitrary: st' rule: ms.induct)
  case (4 ic a b st)
  then obtain mid where "mid \<in> set (ms ic a st)" "st' \<in> set (ms ic b mid)"
    by auto
  with 4 show ?case
    by (blast intro: suffix_order.trans)
next
  case (5 ic a b st)
  then show ?case by (cases st') auto
next
  case (6 ic a st)
  then show ?case by (cases st') auto
next
  case (7 ic greedy a st)
  from 7(3) show ?case
  proof (cases rule: ms_Star_cases)
    case 1
    then show ?thesis by simp
  next
    case (2 mid)
    from 7(1) [OF 2(1)] 7(2) [OF 2] show ?thesis
      by (blast intro: suffix_order.trans)
  qed
next
  case (8 ic a cap s)
  then show ?case by (cases st') auto
qed (auto split: list.splits if_splits simp: suffix_Cons)

lemma nocap_keeps: "nocap r \<Longrightarrow> st' \<in> set (ms ic r st) \<Longrightarrow> fst st' = fst st"
proof (induction ic r st arbitrary: st' rule: ms.induct)
  case (4 ic a b st)
  then obtain mid where "mid \<in> set (ms ic a st)" "st' \<in> set (ms ic b mid)"
    by auto
  with 4 show ?case
    by (metis nocap.simps(2))
next
  case (5 ic a b st)
  then show ?case by (cases st') auto
next
  case (6 ic a st)
  then show ?case by (cases st') auto
next
  case (7 ic greedy a st)
  from 7(3) have n: "nocap a" by simp
  from 7(4) show ?case
  proof (cases rule: ms_Star_cases)
    case 1
    then show ?thesis by simp
  next
    case (2 mid)
    from 7(1) [OF n 2(1)] 7(2) [OF 2(1) 2(2) 7(3) 2(3)] show ?thesis
      by simp
  qed
qed (auto split: list.splits if_splits)

lemma caps_sets: "caps r \<Longrightarrow> st' \<in> set (ms ic r st) \<Longrightarrow> fst st' \<noteq> None"
proof (induction ic r st arbitrary: st' rule: ms.induct)
  case (4 ic a b st)
  then obtain mid where mid: "mid \<in> set (ms ic a st)" "st' \<in> set (ms ic b mid)"
    by auto
  from 4(3) consider "caps a" "nocap b" | "caps b" by auto
  then show ?case
  proof cases
    case 1
    from 4(1) [OF 1(1) mid(1)] nocap_keeps [OF 1(2) mid(2)] show ?thesis by simp
  next
    case 2
    from 4(2) [OF mid(1) 2 mid(2)] show ?thesis .
  qed
next
  case (5 ic a b st)
  then show ?case by (cases st') auto
qed (auto split: list.splits if_splits)

lemma search_Nil: "search ic r [] = match_at ic r []"
  by (simp add: search.simps [of ic r "[]"] split: option.splits)

lemma search_Cons:
  "search ic r (c # cs) =
     (case match_at ic r (c # cs) of Some m \<Rightarrow> Some m | None \<Rightarrow> search ic r cs)"
  by (simp add: search.simps [of ic r "c # cs"] split: option.splits)

lemma match_at_Some: "match_at ic r s = Some m \<Longrightarrow> m \<in> set (ms ic r (None, s))"
  by (auto simp: match_at_def split: list.splits)

lemma search_Some:
  "search ic r s = Some m \<Longrightarrow> \<exists>t. suffix t s \<and> m \<in> set (ms ic r (None, t))"
proof (induction s)
  case Nil
  then show ?case
    by (auto simp: search_Nil dest: match_at_Some)
next
  case (Cons c cs)
  show ?case
  proof (cases "match_at ic r (c # cs)")
    case None
    with Cons show ?thesis
      by (auto simp: search_Cons suffix_Cons)
  next
    case (Some m')
    with Cons.prems have "m' = m"
      by (simp add: search_Cons)
    with Some show ?thesis
      by (blast dest: match_at_Some)
  qed
qed

lemma search_group1: "caps r \<Longrightarrow> search ic r s = Some m \<Longrightarrow> \<exists>g. fst m = Some g"
  using search_Some caps_sets by blast

lemma caps_plain_re: "caps plain_re"
  by code_simp

lemma caps_html_re: "caps html_re"
  by code_simp

lemma ms_Lit: "ms ic (Lit a) (cap, s) =
  (case s of [] \<Rightarrow> [] | c # cs \<Rightarrow> if canon ic c = canon ic a then [(cap, cs)] else [])"
  by simp

text \<open>The greedy star of a class: the longest run first, then the shorter ones.\<close>

lemma ms_Star_Cls_Nil: "ms ic (Star True (Cls neg items)) (cap, []) = [(cap, [])]"
  by (simp add: ms.simps(7))

lemma ms_Star_Cls_Cons:
  "ms ic (Star True (Cls neg items)) (cap, c # cs) =
     (if cls_has ic items c \<noteq> neg
      then ms ic (Star True (Cls neg items)) (cap, cs) @ [(cap, c # cs)]
      else [(cap, c # cs)])"
  by (simp add: ms.simps(7) [of ic True "Cls neg items" "(cap, c # cs)"])

lemma ms_Star_Cls_hd:
  "\<exists>rest. ms ic (Star True (Cls neg items)) (cap, s) =
     (cap, dropWhile (\<lambda>c. cls_has ic items c \<noteq> neg) s) # rest"
proof (induction s)
  case Nil
  then show ?case by (simp add: ms_Star_Cls_Nil)
next
  case (Cons c cs)
  then show ?case by (auto simp: ms_Star_Cls_Cons)
qed

lemma search_None_iff: "search ic r s = None \<longleftrightarrow> (\<forall>t. suffix t s \<longrightarrow> match_at ic r t = None)"
proof (induction s)
  case Nil
  then show ?case by (simp add: search_Nil)
next
  case (Cons c cs)
  then show ?case
    by (auto simp: search_Cons suffix_Cons split: option.splits)
qed

lemma replace_all_no_match: "search ic r s = None \<Longrightarrow> replace_all ic r f s = s"
proof (induction s)
  case Nil
  then show ?case
    by (simp add: search_Nil replace_all.simps [of _ _ _ "[]"])
next
  case (Cons c cs)
  then show ?case
    by (simp add: search_Cons replace_all.simps [of _ _ _ "c # cs"] split: option.splits)
qed


subsection \<open>Patterns of literal characters\<close>

lemma ms_lits:
  "ms False (seqs (map Lit q)) (cap, s) = (if prefix q s then [(cap, drop (length q) s)] else [])"
proof (induction q arbitrary: s)
  case Nil
  then show ?case by simp
next
  case (Cons a q)
  show ?case
  proof (cases q)
    case Nil
    then show ?thesis
      by (cases s) (auto simp: canon_def)
  next
    case (Cons b q')
    have "seqs (map Lit (a # q)) = Seq (Lit a) (seqs (map Lit q))"
      by (simp add: Cons)
    with Cons.IH show ?thesis
      by (cases s) (auto simp: canon_def)
  qed
qed

lemma match_at_lits:
  "match_at False (seqs (map Lit q)) s = (if prefix q s then Some (None, drop (length q) s) else None)"
  by (simp add: match_at_def ms_lits)

lemma replace_lits_Nil: "p \<noteq> [] \<Longrightarrow> replace_all False (seqs (map Lit p)) (\<lambda>_. r) [] = []"
  by (simp add: replace_all.simps [of _ _ _ "[]"] match_at_lits)

lemma replace_lits_Cons:
  "p \<noteq> [] \<Longrightarrow>
   replace_all False (seqs (map Lit p)) (\<lambda>_. r) (c # cs) =
     (if prefix p (c # cs) then r @ replace_all False (seqs (map Lit p)) (\<lambda>_. r) (drop (length p) (c # cs))
      else c # replace_all False (seqs (map Lit p)) (\<lambda>_. r) cs)"
proof -
  assume "p \<noteq> []"
  then have "length cs - length p < length cs \<or> cs = []" "length p \<noteq> 0"
    by (cases p; cases cs; simp)+
  then have "length (drop (length p) (c # cs)) < length (c # cs)"
    by (cases "length p") auto
  then show ?thesis
    by (simp add: replace_all.simps [of _ _ _ "c # cs"] match_at_lits del: length_drop drop_Cons')
qed

lemma prefix_replace_lits:
  assumes "p \<noteq> []" "r \<noteq> []"
  shows "set q \<inter> set r = {} \<Longrightarrow> prefix q (replace_all False (seqs (map Lit p)) (\<lambda>_. r) z)
    \<Longrightarrow> prefix q z"
proof (induction z arbitrary: q)
  case Nil
  with assms show ?case by (simp add: replace_lits_Nil)
next
  case (Cons c cs)
  show ?case
  proof (cases q)
    case Nil
    then show ?thesis by simp
  next
    case q: (Cons d q')
    show ?thesis
    proof (cases "prefix p (c # cs)")
      case True
      with Cons.prems assms q show ?thesis
        by (cases r) (auto simp: replace_lits_Cons)
    next
      case False
      with Cons.prems assms q have "d = c" "prefix q' (replace_all False (seqs (map Lit p)) (\<lambda>_. r) cs)"
        by (auto simp: replace_lits_Cons)
      moreover from Cons.prems(1) q have "set q' \<inter> set r = {}" by auto
      ultimately show ?thesis
        using Cons.IH q by simp
    qed
  qed
qed

lemma sublist_skip: "set q \<inter> set r = {} \<Longrightarrow> q \<noteq> [] \<Longrightarrow> sublist q (r @ w) \<Longrightarrow> sublist q w"
proof (induction r)
  case Nil
  then show ?case by simp
next
  case (Cons a r)
  from Cons.prems have "\<not> prefix q (a # r @ w)"
    by (cases q) auto
  with Cons show ?case
    by (auto simp: sublist_Cons_right)
qed

lemma sublist_of_drop: "sublist q (drop n z) \<Longrightarrow> sublist q z"
proof -
  assume "sublist q (drop n z)"
  then obtain ps ss where "drop n z = ps @ q @ ss"
    by (auto simp: sublist_def)
  then have "z = (take n z @ ps) @ q @ ss"
    by (metis append.assoc append_take_drop_id)
  then show ?thesis
    unfolding sublist_def by blast
qed

lemma sublist_replace_lits:
  assumes "p \<noteq> []" "r \<noteq> []" "set q \<inter> set r = {}"
  shows "sublist q (replace_all False (seqs (map Lit p)) (\<lambda>_. r) z) \<Longrightarrow> sublist q z"
proof (induction z rule: length_induct)
  case (1 z)
  show ?case
  proof (cases "q = []")
    case True
    then show ?thesis by simp
  next
    case qne: False
    show ?thesis
    proof (cases z)
      case Nil
      with 1 assms show ?thesis by (simp add: replace_lits_Nil)
    next
      case (Cons c cs)
      show ?thesis
      proof (cases "prefix p z")
        case True
        with 1(2) assms Cons have "sublist q (r @ replace_all False (seqs (map Lit p)) (\<lambda>_. r) (drop (length p) z))"
          by (simp add: replace_lits_Cons)
        then have "sublist q (replace_all False (seqs (map Lit p)) (\<lambda>_. r) (drop (length p) z))"
          using assms(3) qne sublist_skip by blast
        moreover from assms(1) Cons have "length (drop (length p) z) < length z"
          by (cases p) auto
        ultimately have "sublist q (drop (length p) z)"
          using 1(1) by blast
        then show ?thesis
          by (rule sublist_of_drop)
      next
        case False
        with 1(2) assms Cons have "sublist q (c # replace_all False (seqs (map Lit p)) (\<lambda>_. r) cs)"
          by (simp add: replace_lits_Cons)
        then consider "prefix q (replace_all False (seqs (map Lit p)) (\<lambda>_. r) z)"
          | "sublist q (replace_all False (seqs (map Lit p)) (\<lambda>_. r) cs)"
          using False assms Cons by (auto simp: sublist_Cons_right replace_lits_Cons)
        then show ?thesis
        proof cases
          case 1
          with assms have "prefix q z" by (blast intro: prefix_replace_lits)
          then show ?thesis by (rule prefix_imp_sublist)
        next
          case 2
          with 1(1) Cons have "sublist q cs" by simp
          with Cons show ?thesis by (simp add: sublist_Cons_right)
        qed
      qed
    qed
  qed
qed

lemma replace_lits_removes:
  assumes "p \<noteq> []" "r \<noteq> []" "set p \<inter> set r = {}"
  shows "\<not> sublist p (replace_all False (seqs (map Lit p)) (\<lambda>_. r) z)"
proof (induction z rule: length_induct)
  case (1 z)
  show ?case
  proof (cases z)
    case Nil
    with assms show ?thesis by (simp add: replace_lits_Nil)
  next
    case (Cons c cs)
    show ?thesis
    proof (cases "prefix p z")
      case True
      from assms(1) Cons have "length (drop (length p) z) < length z"
        by (cases p) auto
      with 1 have "\<not> sublist p (replace_all False (seqs (map Lit p)) (\<lambda>_. r) (drop (length p) z))"
        by blast
      then have "\<not> sublist p (r @ replace_all False (seqs (map Lit p)) (\<lambda>_. r) (drop (length p) z))"
        using assms sublist_skip by blast
      with True assms Cons show ?thesis
        by (simp add: replace_lits_Cons)
    next
      case False
      have "\<not> prefix p (replace_all False (seqs (map Lit p)) (\<lambda>_. r) z)"
        using False assms prefix_replace_lits by blast
      moreover from 1 Cons have "\<not> sublist p (replace_all False (seqs (map Lit p)) (\<lambda>_. r) cs)"
        by simp
      ultimately show ?thesis
        using False assms Cons by (simp add: replace_lits_Cons sublist_Cons_right)
    qed
  qed
qed



section \<open>Letter case, classes and the pieces of the section patterns\<close>

lemma CR_LF_neq: "CR \<noteq> LF" "LF \<noteq> CR" "CR \<noteq> ch CHR ''=''" "LF \<noteq> ch CHR ''=''"
  by (simp_all add: CR_def LF_def ch_def)

lemma lower_to_upper:
  assumes "ch CHR ''a'' \<le> c" "c \<le> ch CHR ''z''"
  shows "ch CHR ''A'' \<le> c - 0x20 \<and> c - 0x20 \<le> ch CHR ''Z''"
  using assms unfolding ch_def by simp unat_arith

lemma upper_to_lower:
  assumes "ch CHR ''A'' \<le> c" "c \<le> ch CHR ''Z''"
  shows "ch CHR ''a'' \<le> c + 0x20 \<and> c + 0x20 \<le> ch CHR ''z''"
  using assms unfolding ch_def
  apply simp
  apply unat_arith
  apply simp
  done

lemma to_upper_nonletter: "\<not> letter a \<Longrightarrow> to_upper c = a \<longleftrightarrow> c = a"
  using lower_to_upper [of c] by (auto simp: to_upper_def letter_def)

lemma to_lower_nonletter: "\<not> letter a \<Longrightarrow> to_lower c = a \<longleftrightarrow> c = a"
  using upper_to_lower [of c] by (auto simp: to_lower_def letter_def)

lemma canon_nonletter: "\<not> letter a \<Longrightarrow> canon ic c = canon ic a \<longleftrightarrow> c = a"
  using to_upper_nonletter [of a c] to_upper_nonletter [of a a]
  by (auto simp: canon_def)

lemma nonletters: "\<not> letter CR" "\<not> letter LF" "\<not> letter (ch CHR '':'')" "\<not> letter (ch CHR ''>'')"
  "\<not> letter (ch CHR ''<'')" "\<not> letter (ch CHR ''-'')"
  by (simp_all add: letter_def CR_def LF_def ch_def)








lemma cls_gt_ic: "cls_has ic [CChar (ch CHR ''>'')] c \<longleftrightarrow> c = ch CHR ''>''"
  by (auto simp: cls_has_def to_upper_nonletter to_lower_nonletter nonletters)


lemma cls_any_ic: "cls_has ic [CSpace, CNotSpace] c"
  by (auto simp: cls_has_def)

lemma ms_lits_ci:
  "ms True (seqs (map Lit q)) (cap, s) = (if ci_prefix q s then [(cap, drop (length q) s)] else [])"
proof (induction q arbitrary: s)
  case Nil
  then show ?case by (simp add: ci_prefix_def)
next
  case (Cons a q)
  show ?case
  proof (cases q)
    case Nil
    then show ?thesis
      by (cases s) (auto simp: canon_def ci_prefix_def)
  next
    case (Cons b q')
    have "seqs (map Lit (a # q)) = Seq (Lit a) (seqs (map Lit q))"
      by (simp add: Cons)
    with Cons.IH show ?thesis
      by (cases s) (auto simp: canon_def ci_prefix_def)
  qed
qed

lemma ms_Seq_lits:
  "ms True (Seq (lits p) r) (cap, s) =
     (if ci_prefix (js p) s then ms True r (cap, drop (length p) s) else [])"
  by (simp add: lits_def js_def ms_lits_ci del: map_map)



lemma ms_greedy_class:
  assumes "\<And>c t cap. cls_has ic items c \<noteq> neg \<Longrightarrow> ms ic r (cap, c # t) = []"
  shows "ms ic (Seq (Star True (Cls neg items)) r) (cap, s) =
         ms ic r (cap, dropWhile (\<lambda>c. cls_has ic items c \<noteq> neg) s)"
proof (induction s)
  case Nil
  then show ?case by (simp add: ms_Star_Cls_Nil)
next
  case (Cons c cs)
  then show ?case
    using assms by (simp add: ms_Star_Cls_Cons)
qed

lemma ms_Lit_CR: "ms ic (Lit CR) (cap, s) = (case s of [] \<Rightarrow> [] | c # t \<Rightarrow> if c = CR then [(cap, t)] else [])"
  by (simp add: canon_nonletter nonletters split: list.splits)

lemma ms_Lit_LF: "ms ic (Lit LF) (cap, s) = (case s of [] \<Rightarrow> [] | c # t \<Rightarrow> if c = LF then [(cap, t)] else [])"
  by (simp add: canon_nonletter nonletters split: list.splits)

lemma ms_eol_then:
  "ms ic (Seq (Opt (Lit CR)) (Seq (Lit LF) r)) (cap, s) =
     (case after_eol s of None \<Rightarrow> [] | Some t \<Rightarrow> ms ic r (cap, t))"
proof (cases s)
  case Nil
  then show ?thesis by (simp add: after_eol_def)
next
  case (Cons c t)
  show ?thesis
  proof (cases t)
    case Nil
    with Cons show ?thesis
      by (auto simp: after_eol_def ms_Lit_CR ms_Lit_LF CR_LF_neq simp del: ms.simps(2))
  next
    case c2: (Cons d u)
    with Cons show ?thesis
      by (auto simp: after_eol_def ms_Lit_CR ms_Lit_LF CR_LF_neq simp del: ms.simps(2))
  qed
qed


lemma after_eol_eol: "eol e \<Longrightarrow> after_eol (e @ t) = Some t"
  by (auto simp: eol_def after_eol_def CR_LF_neq)













lemma ms_lazy_any_Nil: "ms ic any_lazy (cap, []) = [(cap, [])]"
  by (simp add: any_lazy_def ms.simps(7))

lemma ms_lazy_any_Cons: "ms ic any_lazy (cap, c # cs) = (cap, c # cs) # ms ic any_lazy (cap, cs)"
  by (simp add: any_lazy_def ms.simps(7) [of ic False _ "(cap, c # cs)"] cls_any_ic)



lemma lazy_scan_first:
  assumes "\<And>cap t. \<not> P t \<Longrightarrow> ms ic b (cap, t) = []"
  shows "none_before P content rest \<Longrightarrow>
    \<exists>others. ms ic (Seq any_lazy b) (cap, content @ rest) = ms ic b (cap, rest) @ others"
proof (induction content)
  case Nil
  obtain tl where "ms ic any_lazy (cap, rest) = (cap, rest) # tl"
    by (cases rest) (auto simp: ms_lazy_any_Nil ms_lazy_any_Cons)
  then show ?case by simp
next
  case (Cons c cs)
  then obtain others where
    "ms ic (Seq any_lazy b) (cap, cs @ rest) = ms ic b (cap, rest) @ others"
    by auto
  moreover from Cons.prems have "ms ic b (cap, c # cs @ rest) = []"
    by (simp add: assms)
  ultimately show ?case
    by (simp add: ms_lazy_any_Cons)
qed

lemma replace_all_skip:
  assumes "\<And>t. \<not> P t \<Longrightarrow> match_at ic r t = None"
  shows "none_before P pre s \<Longrightarrow> replace_all ic r f (pre @ s) = pre @ replace_all ic r f s"
proof (induction pre)
  case Nil
  then show ?case by simp
next
  case (Cons c cs)
  then have "match_at ic r (c # cs @ s) = None"
    by (simp add: assms)
  with Cons show ?case
    by (simp add: replace_all.simps [of _ _ _ "c # cs @ s"])
qed

lemma replace_all_hit:
  "match_at ic r s = Some (cap, rest) \<Longrightarrow> length rest < length s \<Longrightarrow>
   replace_all ic r f s = f cap @ replace_all ic r f rest"
  by (simp add: replace_all.simps [of _ _ _ s])


lemma html_re_shape:
  "html_re = Seq (lits ''Content-Type:'') (Seq (Star True (Cls False [CSpace]))
                (Seq (lits ''text/html'') (section_tail (seqs [Opt (Lit CR), Lit LF, lits ''--'']))))"
  by (simp add: html_re_def header_line_end_def part_headers_def header_re_def section_tail_def)

lemma ci_prefix_nonletter:
  "\<forall>c \<in> set p. \<not> letter c \<Longrightarrow> ci_prefix p t = prefix p t"
proof (induction p arbitrary: t)
  case Nil
  then show ?case by (simp add: ci_prefix_def)
next
  case (Cons a p)
  from Cons.prems have a: "\<not> letter a" by simp
  then have ua: "to_upper a = a"
    using to_upper_nonletter [of a a] by simp
  from Cons.prems Cons.IH have ih: "ci_prefix p u = prefix p u" for u
    by simp
  show ?case
  proof (cases t)
    case Nil
    then show ?thesis by (simp add: ci_prefix_def)
  next
    case (Cons c u)
    have "to_upper c = to_upper a \<longleftrightarrow> c = a"
      using to_upper_nonletter [OF a, of c] ua by simp
    with ih [of u] Cons show ?thesis
      by (auto simp: ci_prefix_def)
  qed
qed

lemma ci_prefix_dashes: "ci_prefix (js ''--'') t = prefix (js ''--'') t"
  by (rule ci_prefix_nonletter) (simp add: js_def nonletters)

lemma ms_lits_only:
  "ms True (lits p) (cap, t) = (if ci_prefix (js p) t then [(cap, drop (length p) t)] else [])"
  by (simp add: lits_def js_def ms_lits_ci del: map_map)

lemma ms_one_eol_dashes:
  "ms True (seqs [Opt (Lit CR), Lit LF, lits ''--'']) (cap, t) =
     (case after_eol t of
        None \<Rightarrow> []
      | Some t1 \<Rightarrow> if prefix (js ''--'') t1 then [(cap, drop 2 t1)] else [])"
  by (simp add: ms_eol_then ms_lits_only ci_prefix_dashes numeral_2_eq_2 split: option.splits
      del: ms.simps(1-6) ms.simps(8))




lemma one_eol_first:
  "eol e \<Longrightarrow> ms True (seqs [Opt (Lit CR), Lit LF, lits ''--'']) (cap, e @ js ''--'' @ post)
     = [(cap, post)]"
  unfolding ms_one_eol_dashes by (simp add: after_eol_eol js_def)



lemma ci_eq_prefix: "ci_eq h p \<Longrightarrow> ci_prefix p (h @ t) \<and> drop (length p) (h @ t) = t"
proof -
  assume "ci_eq h p"
  then have m: "map to_upper h = map to_upper p"
    by (simp add: ci_eq_def)
  then have "length h = length p"
    by (metis length_map)
  with m show ?thesis
    by (simp add: ci_prefix_def)
qed

lemma ci_prefix_hd:
  "ci_prefix (a # p) (c # t) \<Longrightarrow> to_upper c = to_upper a"
  by (simp add: ci_prefix_def)



section \<open>The clean step\<close>

subsection \<open>Soft line breaks\<close>

lemma match_at_soft_break:
  "match_at False soft_break_re s =
     (case s of
        [] \<Rightarrow> None
      | c # cs \<Rightarrow>
          if c = ch CHR ''='' then
            (if prefix [CR, LF] cs then Some (None, drop 2 cs)
             else if prefix [LF] cs then Some (None, drop 1 cs)
             else None)
          else None)"
proof (cases s)
  case Nil
  then show ?thesis by (simp add: match_at_def soft_break_re_def)
next
  case (Cons c cs)
  show ?thesis
  proof (cases cs)
    case Nil
    with Cons show ?thesis by (simp add: match_at_def soft_break_re_def canon_def)
  next
    case c2: (Cons d ds)
    show ?thesis
    proof (cases ds)
      case Nil
      with Cons c2 show ?thesis
        by (simp add: match_at_def soft_break_re_def canon_def CR_LF_neq)
    next
      case (Cons e es)
      with \<open>s = c # cs\<close> c2 show ?thesis
        by (simp add: match_at_def soft_break_re_def canon_def CR_LF_neq)
    qed
  qed
qed

lemma remove_soft_breaks_direct: "remove_soft_breaks s = drop_soft_breaks s"
proof (induction s rule: drop_soft_breaks.induct)
  case 1
  then show ?case
    by (simp add: remove_soft_breaks_def replace_all.simps [of _ _ _ "[]"] match_at_soft_break)
next
  case (2 c cs)
  then show ?case
    by (auto simp: remove_soft_breaks_def replace_all.simps [of _ _ _ "c # cs"] match_at_soft_break)
qed

lemma drop_soft_breaks_CRLF:
  "drop_soft_breaks (u @ ch CHR ''='' # CR # LF # v) = drop_soft_breaks u @ drop_soft_breaks v"
proof (induction u rule: drop_soft_breaks.induct)
  case 1
  then show ?case by simp
next
  case (2 c cs)
  have p2: "prefix [CR, LF] (cs @ ch CHR ''='' # CR # LF # v) = prefix [CR, LF] cs"
    by (cases cs; cases "tl cs") (auto simp: CR_LF_neq)
  have p1: "prefix [LF] (cs @ ch CHR ''='' # CR # LF # v) = prefix [LF] cs"
    by (cases cs) (auto simp: CR_LF_neq)
  show ?case
  proof (cases "c = ch CHR ''='' \<and> prefix [CR, LF] cs")
    case True
    then have "2 \<le> length cs" by (auto simp: prefix_def)
    with True 2(1) p2 show ?thesis by auto
  next
    case nf: False
    show ?thesis
    proof (cases "c = ch CHR ''='' \<and> prefix [LF] cs")
      case True
      then have "1 \<le> length cs" by (auto simp: prefix_def)
      with True nf 2(2) p1 p2 show ?thesis by auto
    next
      case False
      with nf 2(3) p1 p2 show ?thesis by auto
    qed
  qed
qed

lemma drop_soft_breaks_LF:
  "drop_soft_breaks (u @ ch CHR ''='' # LF # v) = drop_soft_breaks u @ drop_soft_breaks v"
proof (induction u rule: drop_soft_breaks.induct)
  case 1
  then show ?case by (simp add: CR_LF_neq)
next
  case (2 c cs)
  have p2: "prefix [CR, LF] (cs @ ch CHR ''='' # LF # v) = prefix [CR, LF] cs"
    by (cases cs; cases "tl cs") (auto simp: CR_LF_neq)
  have p1: "prefix [LF] (cs @ ch CHR ''='' # LF # v) = prefix [LF] cs"
    by (cases cs) (auto simp: CR_LF_neq)
  show ?case
  proof (cases "c = ch CHR ''='' \<and> prefix [CR, LF] cs")
    case True
    then have "2 \<le> length cs" by (auto simp: prefix_def)
    with True 2(1) p2 show ?thesis by auto
  next
    case nf: False
    show ?thesis
    proof (cases "c = ch CHR ''='' \<and> prefix [LF] cs")
      case True
      then have "1 \<le> length cs" by (auto simp: prefix_def)
      with True nf 2(2) p1 p2 show ?thesis by auto
    next
      case False
      with nf 2(3) p1 p2 show ?thesis by auto
    qed
  qed
qed

text \<open>
  C7. The clean step removes the soft line breaks before it decodes the hex escapes.
  The removal is the recursion \<open>drop_soft_breaks\<close>; every soft line break of a text,
  with CR LF or with LF, is removed wherever it stands; the hex escapes are decoded in
  what is left, so an escape that a soft break divides is decoded and an \<open>=\<close> that
  decoding brings in front of a line ending stays (the other order gives other results);
  on \<open>Hello=\r\nWorld=3D1\<close> the clean step yields \<open>HelloWorld=1\<close>.
\<close>

theorem cleanBody_quoted_printable:
  "remove_soft_breaks text = drop_soft_breaks text \<and>
   remove_soft_breaks (u @ js ''='' @ [CR, LF] @ v) = remove_soft_breaks u @ remove_soft_breaks v \<and>
   remove_soft_breaks (u @ js ''='' @ [LF] @ v) = remove_soft_breaks u @ remove_soft_breaks v \<and>
   cleanBody text = trim (collapse_spaces (decode_hex_escapes (drop_soft_breaks text))) \<and>
   cleanBody (js ''=3='' @ [CR, LF] @ js ''D1'') = js ''=1'' \<and>
   trim (collapse_spaces (remove_soft_breaks (decode_hex_escapes (js ''=3='' @ [CR, LF] @ js ''D1''))))
     = js ''=3D1'' \<and>
   cleanBody (js ''=3D'' @ [CR, LF] @ js ''x'') = js ''= x'' \<and>
   trim (collapse_spaces (remove_soft_breaks (decode_hex_escapes (js ''=3D'' @ [CR, LF] @ js ''x''))))
     = js ''x'' \<and>
   cleanBody (js ''Hello='' @ [CR, LF] @ js ''World=3D1'') = js ''HelloWorld=1''"
proof (intro conjI)
  show "remove_soft_breaks text = drop_soft_breaks text"
    by (rule remove_soft_breaks_direct)
  show "remove_soft_breaks (u @ js ''='' @ [CR, LF] @ v) = remove_soft_breaks u @ remove_soft_breaks v"
    by (simp add: remove_soft_breaks_direct drop_soft_breaks_CRLF js_def)
  show "remove_soft_breaks (u @ js ''='' @ [LF] @ v) = remove_soft_breaks u @ remove_soft_breaks v"
    by (simp add: remove_soft_breaks_direct drop_soft_breaks_LF js_def)
  show "cleanBody text = trim (collapse_spaces (decode_hex_escapes (drop_soft_breaks text)))"
    by (simp add: cleanBody_def remove_soft_breaks_direct)
  show "cleanBody (js ''=3='' @ [CR, LF] @ js ''D1'') = js ''=1''"
    by (simp add: clean_defs re_defs ev_defs)
  show "trim (collapse_spaces (remove_soft_breaks (decode_hex_escapes (js ''=3='' @ [CR, LF] @ js ''D1''))))
     = js ''=3D1''"
    by (simp add: clean_defs re_defs ev_defs)
  show "cleanBody (js ''=3D'' @ [CR, LF] @ js ''x'') = js ''= x''"
    by (simp add: clean_defs re_defs ev_defs)
  show "trim (collapse_spaces (remove_soft_breaks (decode_hex_escapes (js ''=3D'' @ [CR, LF] @ js ''x''))))
     = js ''x''"
    by (simp add: clean_defs re_defs ev_defs)
  show "cleanBody (js ''Hello='' @ [CR, LF] @ js ''World=3D1'') = js ''HelloWorld=1''"
    by (simp add: clean_defs re_defs ev_defs)
qed

subsection \<open>White-space normalisation\<close>

lemma cls_space: "cls_has False [CSpace] c = is_space c"
  by (simp add: cls_has_def)

lemma match_at_spaces:
  "match_at False spaces_re s =
     (case s of [] \<Rightarrow> None
      | c # cs \<Rightarrow> if is_space c then Some (None, dropWhile is_space cs) else None)"
proof (cases s)
  case Nil
  then show ?thesis by (simp add: match_at_def spaces_re_def plus_def)
next
  case (Cons c cs)
  from ms_Star_Cls_hd [of False False "[CSpace]" None cs]
  obtain rest where "ms False (Star True (Cls False [CSpace])) (None, cs)
     = (None, dropWhile is_space cs) # rest"
    by (auto simp: cls_space)
  with Cons show ?thesis
    by (simp add: match_at_def spaces_re_def plus_def cls_space)
qed

lemma collapse_spaces_squeeze: "collapse_spaces s = squeeze s"
proof (induction s rule: squeeze.induct)
  case 1
  then show ?case
    by (simp add: collapse_spaces_def replace_all.simps [of _ _ _ "[]"] match_at_spaces)
next
  case (2 c cs)
  have "length (dropWhile is_space cs) < Suc (length cs)"
    by (simp add: length_dropWhile_le le_imp_less_Suc)
  with 2 show ?case
    by (simp add: collapse_spaces_def replace_all.simps [of _ _ _ "c # cs"] match_at_spaces
        js_def ch_def SP_def)
qed


lemma SP_space: "is_space SP"
  by (simp add: is_space_def SP_def)

lemma squeeze_hd: "\<not> is_space c \<Longrightarrow> squeeze (c # cs) = c # squeeze cs"
  by simp

lemma tidy_squeeze: "tidy (squeeze s)"
proof (induction s rule: squeeze.induct)
  case 1
  then show ?case by simp
next
  case (2 c cs)
  show ?case
  proof (cases "is_space c")
    case True
    have "case squeeze (dropWhile is_space cs) of [] \<Rightarrow> True | d # _ \<Rightarrow> \<not> is_space d"
    proof (cases "dropWhile is_space cs")
      case Nil
      show ?thesis unfolding Nil by simp
    next
      case (Cons d ds)
      then have "\<not> is_space d"
        by (metis hd_dropWhile list.distinct(1) list.sel(1))
      then show ?thesis unfolding Cons by simp
    qed
    with True 2 show ?thesis by simp
  next
    case False
    with 2 show ?thesis by simp
  qed
qed

lemma tidy_squeeze_id: "tidy s \<Longrightarrow> squeeze s = s"
proof (induction s)
  case Nil
  then show ?case by simp
next
  case (Cons c cs)
  then show ?case
    by (cases cs) auto
qed

lemma tidy_append_left: "tidy (xs @ ys) \<Longrightarrow> tidy xs"
proof (induction xs)
  case Nil
  then show ?case by simp
next
  case (Cons c cs)
  then show ?case
    by (cases cs) (auto split: list.splits)
qed

lemma tidy_append_right: "tidy (xs @ ys) \<Longrightarrow> tidy ys"
  by (induction xs) auto

lemma tidy_dropWhile: "tidy s \<Longrightarrow> tidy (dropWhile P s)"
  by (metis takeWhile_dropWhile_id tidy_append_right)

lemma drop_trailing_prefix: "\<exists>ys. s = rev (dropWhile P (rev s)) @ ys"
proof -
  have "rev s = takeWhile P (rev s) @ dropWhile P (rev s)"
    by simp
  then have "s = rev (dropWhile P (rev s)) @ rev (takeWhile P (rev s))"
    by (metis rev_append rev_rev_ident)
  then show ?thesis ..
qed

lemma tidy_trim: "tidy s \<Longrightarrow> tidy (trim s)"
proof -
  assume "tidy s"
  then have t: "tidy (dropWhile is_space s)"
    by (rule tidy_dropWhile)
  obtain ys where "dropWhile is_space s = trim s @ ys"
    unfolding trim_def using drop_trailing_prefix by blast
  with t show ?thesis
    by (metis tidy_append_left)
qed

lemma dropWhile_id: "s = [] \<or> \<not> P (hd s) \<Longrightarrow> dropWhile P s = s"
  by (cases s) auto

lemma dropWhile_hd: "dropWhile P s = [] \<or> \<not> P (hd (dropWhile P s))"
  by (metis hd_dropWhile)

lemma trim_trim: "trim (trim s) = trim s"
proof -
  define z where "z = dropWhile is_space s"
  define y where "y = dropWhile is_space (rev z)"
  have ty: "trim s = rev y"
    by (simp add: trim_def z_def y_def)
  have y: "y = [] \<or> \<not> is_space (hd y)"
    unfolding y_def by (rule dropWhile_hd)
  have z: "z = [] \<or> \<not> is_space (hd z)"
    unfolding z_def by (rule dropWhile_hd)
  obtain ys where zs: "z = rev y @ ys"
    unfolding y_def using drop_trailing_prefix by blast
  have "rev y = [] \<or> \<not> is_space (hd (rev y))"
  proof (cases "rev y = []")
    case True
    then show ?thesis by simp
  next
    case False
    with zs have "hd z = hd (rev y)" by simp
    with z zs False show ?thesis by auto
  qed
  then have d1: "dropWhile is_space (rev y) = rev y"
    by (rule dropWhile_id)
  from y have d2: "dropWhile is_space y = y"
    by (rule dropWhile_id)
  show ?thesis
    by (simp add: ty) (simp add: trim_def d1 d2)
qed

lemma space_in_tidy: "tidy s \<Longrightarrow> c \<in> set s \<Longrightarrow> is_space c \<Longrightarrow> c = SP"
  by (induction s) auto

lemma set_trim: "set (trim s) \<subseteq> set s"
  unfolding trim_def by (metis set_rev set_dropWhileD subsetI)

lemma soft_break_needs_LF: "match_at False soft_break_re s = Some m \<Longrightarrow> LF \<in> set s"
  by (auto simp: match_at_def soft_break_re_def canon_def split: list.splits if_splits)

lemma no_LF_no_soft_break: "LF \<notin> set s \<Longrightarrow> search False soft_break_re s = None"
proof -
  assume n: "LF \<notin> set s"
  have "match_at False soft_break_re t = None" if "suffix t s" for t
  proof (cases "match_at False soft_break_re t")
    case None
    then show ?thesis .
  next
    case (Some m)
    then have "LF \<in> set t" by (rule soft_break_needs_LF)
    with that n show ?thesis
      by (meson set_mono_suffix subsetD)
  qed
  then show ?thesis
    by (simp add: search_None_iff)
qed

lemma LF_space: "is_space LF" "LF \<noteq> SP"
  by (simp_all add: is_space_def LF_def SP_def)

lemma tidy_cleanBody: "tidy (cleanBody s)"
  by (simp add: cleanBody_def collapse_spaces_squeeze tidy_squeeze tidy_trim)

lemma cleanBody_no_LF: "LF \<notin> set (cleanBody s)"
  using space_in_tidy [OF tidy_cleanBody, of LF s] LF_space by blast

lemma trim_cleanBody: "trim (cleanBody s) = cleanBody s"
  by (simp add: cleanBody_def trim_trim)


text \<open>
  C3. Collapsing and trimming a text that is already collapsed and trimmed returns it
  unchanged, and the clean step returns a cleaned text unchanged when that text has no
  hex escape \<open>=XX\<close> in it.
\<close>

theorem clean_step_idempotent_without_escapes:
  "trim (collapse_spaces (trim (collapse_spaces t))) = trim (collapse_spaces t) \<and>
   (search False hex_escape_re (cleanBody s) = None \<longrightarrow> cleanBody (cleanBody s) = cleanBody s)"
proof
  have "tidy (trim (squeeze t))"
    by (simp add: tidy_squeeze tidy_trim)
  then show "trim (collapse_spaces (trim (collapse_spaces t))) = trim (collapse_spaces t)"
    by (simp add: collapse_spaces_squeeze tidy_squeeze_id trim_trim)
next
  show "search False hex_escape_re (cleanBody s) = None \<longrightarrow> cleanBody (cleanBody s) = cleanBody s"
  proof
    assume h: "search False hex_escape_re (cleanBody s) = None"
    have 1: "remove_soft_breaks (cleanBody s) = cleanBody s"
      unfolding remove_soft_breaks_def
      by (rule replace_all_no_match) (rule no_LF_no_soft_break, rule cleanBody_no_LF)
    have 2: "decode_hex_escapes (cleanBody s) = cleanBody s"
      unfolding decode_hex_escapes_def using h by (rule replace_all_no_match)
    have 3: "collapse_spaces (cleanBody s) = cleanBody s"
      by (simp add: collapse_spaces_squeeze tidy_squeeze_id tidy_cleanBody)
    show "cleanBody (cleanBody s) = cleanBody s"
      by (subst cleanBody_def) (simp add: 1 2 3 trim_cleanBody)
  qed
qed

theorem clean_step_idempotent_without_escapes_witness:
  "search False hex_escape_re (cleanBody (js '' a   b '')) = None \<and>
   cleanBody (js '' a   b '') = js ''a b'' \<and>
   cleanBody (cleanBody (js '' a   b '')) = cleanBody (js '' a   b '')"
proof -
  have c: "cleanBody (js '' a   b '') = js ''a b''"
    by (simp add: clean_defs re_defs ev_defs)
  have h: "search False hex_escape_re (cleanBody (js '' a   b '')) = None"
    unfolding c by (simp add: re_defs ev_defs)
  from clean_step_idempotent_without_escapes [of "[]" "js '' a   b ''"] h c show ?thesis
    by simp
qed

text \<open>
  The clean step is not idempotent on every text: \<open>=3D41\<close> is cleaned to \<open>=41\<close>,
  a hex escape that a second clean step decodes to \<open>A\<close>.
\<close>

theorem clean_step_not_idempotent:
  "cleanBody (js ''=3D41'') = js ''=41'' \<and>
   cleanBody (cleanBody (js ''=3D41'')) = js ''A'' \<and>
   cleanBody (cleanBody (js ''=3D41'')) \<noteq> cleanBody (js ''=3D41'')"
  by (simp add: clean_defs re_defs ev_defs)

section \<open>The fallback chain of extractTextBody\<close>

text \<open>The group of either pattern takes part in every match, so the extraction never fails.\<close>

lemma extractTextBody_total: "\<exists>body. extractTextBody raw = Inr body"
proof (cases "search True plain_re raw")
  case (Some m)
  with search_group1 [OF caps_plain_re Some] show ?thesis
    by (auto simp: extractTextBody_def group1_def)
next
  case None
  show ?thesis
  proof (cases "search True html_re raw")
    case (Some m)
    with None search_group1 [OF caps_html_re Some] show ?thesis
      by (auto simp: extractTextBody_def group1_def)
  next
    case N: None
    with None show ?thesis
      by (simp add: extractTextBody_def Let_def)
  qed
qed

lemma indexOf_neg_iff: "indexOf s p < 0 \<longleftrightarrow> \<not> sublist p s"
proof (induction s)
  case Nil
  then show ?case by (cases p) (auto simp: indexOf.simps [of "[]"])
next
  case (Cons c cs)
  then show ?case
    by (subst indexOf.simps) (auto simp: sublist_Cons_right Let_def)
qed

text \<open>
  With the separator found at an index above 0, the result is the cleaned text after it.
\<close>

lemma indexOf_first:
  "indexOf s p = int n \<Longrightarrow> prefix p (drop n s) \<and> (\<forall>k<n. \<not> prefix p (drop k s))"
proof (induction s arbitrary: n)
  case Nil
  then show ?case
    by (simp add: indexOf.simps [of "[]"] split: if_splits)
next
  case (Cons c cs)
  show ?case
  proof (cases "prefix p (c # cs)")
    case True
    with Cons.prems show ?thesis
      by (simp add: indexOf.simps [of "c # cs"])
  next
    case False
    with Cons.prems obtain m where m: "indexOf cs p = int m" "n = Suc m"
      by (auto simp: indexOf.simps [of "c # cs"] Let_def split: if_splits)
        (metis nat_int not_less of_nat_Suc nat_0_le add.commute int_nat_eq)
    from Cons.IH [OF m(1)] False m(2) show ?thesis
      by (auto simp: less_Suc_eq_0_disj)
  qed
qed

lemma header_boundary_fallback:
  assumes "search True plain_re raw = None" and "search True html_re raw = None"
    and "indexOf raw [CR, LF, CR, LF] = int n" and "0 < n"
  shows "extractTextBody raw = Inr (cleanBody (drop (n + 4) raw))"
  using assms by (simp add: extractTextBody_def Let_def nat_add_distrib)











text \<open>
  C2. The entities are replaced in the order \<open>&nbsp;\<close>, \<open>&amp;\<close>, \<open>&lt;\<close>, \<open>&gt;\<close>: the
  text \<open>&lt;\<close> that decoding \<open>&amp;lt;\<close> brings in is decoded again, and the result of an
  HTML part with the text \<open>&amp;lt;\<close> is \<open><\<close>.
\<close>

theorem amp_entity_is_unescaped_twice:
  "search True plain_re doc_amp = None \<and>
   search True html_re doc_amp = Some (Some (js ''&amp;lt;''), []) \<and>
   extractTextBody doc_amp = Inr (js ''<'')"
  by (simp add: doc_amp_def extract_defs clean_defs re_defs ev_defs)

text \<open>
  C4. A document that begins with the blank line has its separator at index 0, which the
  test \<open>headerEnd > 0\<close> takes for no separator: the result is the document as it is, not
  the cleaned text after the separator.
\<close>

theorem blank_line_at_start_is_missed:
  "search True plain_re doc_blank_first = None \<and>
   search True html_re doc_blank_first = None \<and>
   indexOf doc_blank_first [CR, LF, CR, LF] = 0 \<and>
   extractTextBody doc_blank_first = Inr doc_blank_first \<and>
   cleanBody (drop 4 doc_blank_first) = js ''a b'' \<and>
   doc_blank_first \<noteq> js ''a b''"
  by (simp add: doc_blank_first_def extract_defs clean_defs re_defs ev_defs)

text \<open>
  C5. Without a plain-text match, an HTML match and a blank-line separator, the result
  is the first 500 code units of the raw document as they are, and the whole document
  when it has no more than 500; the extraction returns a value.
\<close>

theorem last_resort_is_prefix:
  assumes "search True plain_re raw = None" and "search True html_re raw = None"
    and "\<not> sublist [CR, LF, CR, LF] raw"
  shows "extractTextBody raw = Inr (take 500 raw) \<and>
    (length raw \<le> 500 \<longrightarrow> extractTextBody raw = Inr raw)"
  using assms indexOf_neg_iff [of raw "[CR, LF, CR, LF]"]
  by (simp add: extractTextBody_def Let_def)

theorem last_resort_is_prefix_witness:
  "search True plain_re (js ''a  b'') = None \<and> search True html_re (js ''a  b'') = None \<and>
   \<not> sublist [CR, LF, CR, LF] (js ''a  b'') \<and>
   extractTextBody (js ''a  b'') = Inr (js ''a  b'')"
proof -
  have h: "search True plain_re (js ''a  b'') = None" "search True html_re (js ''a  b'') = None"
    "\<not> sublist [CR, LF, CR, LF] (js ''a  b'')"
    by (simp_all add: re_defs ev_defs sublist_Cons_right)
  have l: "length (js ''a  b'') \<le> 500"
    by (simp add: js_def)
  from last_resort_is_prefix [OF h] h l show ?thesis
    by simp
qed

section \<open>The HTML branch\<close>

subsection \<open>Tags\<close>

lemma run_then_Lit:
  "concat (map (ms False (Lit g)) (ms False (Star True (Cls True [CChar g])) (cap, s))) =
     (case dropWhile (\<lambda>x. x \<noteq> g) s of [] \<Rightarrow> [] | _ # t \<Rightarrow> [(cap, t)])"
proof (induction s)
  case Nil
  then show ?case by (simp add: ms_Star_Cls_Nil)
next
  case (Cons c cs)
  then show ?case
    by (simp add: ms_Star_Cls_Cons cls_has_def canon_def)
qed

lemma match_at_tag:
  "match_at False tag_re s =
     (case s of
        [] \<Rightarrow> None
      | c # rest \<Rightarrow>
          if c = ch CHR ''<'' then
            (case rest of
               [] \<Rightarrow> None
             | d # ds \<Rightarrow>
                 if d \<noteq> ch CHR ''>'' then
                   (case dropWhile (\<lambda>x. x \<noteq> ch CHR ''>'') ds of
                      [] \<Rightarrow> None
                    | _ # t \<Rightarrow> Some (None, t))
                 else None)
          else None)"
proof (cases s)
  case Nil
  then show ?thesis
    by (simp add: match_at_def tag_re_def plus_def)
next
  case s: (Cons c rest)
  show ?thesis
  proof (cases rest)
    case Nil
    with s show ?thesis
      by (simp add: match_at_def tag_re_def plus_def canon_def)
  next
    case (Cons d ds)
    show ?thesis
    proof (cases "dropWhile (\<lambda>x. x \<noteq> ch CHR ''>'') ds")
      case Nil
      with s Cons show ?thesis
        by (simp add: match_at_def tag_re_def plus_def run_then_Lit cls_has_def canon_def
            del: dropWhile_eq_Nil_conv)
    next
      case d: (Cons x t)
      with s Cons show ?thesis
        by (simp add: match_at_def tag_re_def plus_def run_then_Lit cls_has_def canon_def)
    qed
  qed
qed

lemma tag_match_shorter:
  assumes "match_at False tag_re s = Some (cap, rest)"
  shows "length rest < length s"
proof -
  from assms obtain c d ds x where s: "s = c # d # ds" and
    d: "dropWhile (\<lambda>x. x \<noteq> ch CHR ''>'') ds = x # rest"
    by (auto simp: match_at_tag split: list.splits if_splits)
  have "length (dropWhile (\<lambda>x. x \<noteq> ch CHR ''>'') ds) \<le> length ds"
    by (rule length_dropWhile_le)
  with s d show ?thesis by simp
qed

lemma strip_tags_Nil: "strip_tags [] = []"
  by (simp add: strip_tags_def replace_all.simps [of _ _ _ "[]"] match_at_tag)

lemma strip_tags_Cons:
  "strip_tags (c # cs) =
     (case match_at False tag_re (c # cs) of
        None \<Rightarrow> c # strip_tags cs
      | Some (cap, rest) \<Rightarrow> SP # strip_tags rest)"
proof (cases "match_at False tag_re (c # cs)")
  case None
  then show ?thesis
    by (simp add: strip_tags_def replace_all.simps [of _ _ _ "c # cs"])
next
  case (Some m)
  obtain cap rest where m: "m = (cap, rest)" by (cases m)
  with Some have "length rest < length (c # cs)"
    using tag_match_shorter [of "c # cs" cap rest] by simp
  with Some m show ?thesis
    by (simp add: strip_tags_def replace_all.simps [of _ _ _ "c # cs"] js_def ch_def SP_def)
qed

lemma set_strip_tags: "set (strip_tags s) \<subseteq> insert SP (set s)"
proof (induction s rule: length_induct)
  case (1 s)
  show ?case
  proof (cases s)
    case Nil
    then show ?thesis by (simp add: strip_tags_Nil)
  next
    case (Cons c cs)
    show ?thesis
    proof (cases "match_at False tag_re s")
      case None
      with 1 Cons show ?thesis
        by (auto simp: strip_tags_Cons)
    next
      case (Some m)
      obtain cap rest where m: "m = (cap, rest)" by (cases m)
      with Some have l: "length rest < length s"
        using tag_match_shorter [of s cap rest] by simp
      from Some m have "suffix rest s"
        using ms_suffix [OF match_at_Some [OF Some]] by simp
      then have "set rest \<subseteq> set s"
        by (rule set_mono_suffix)
      with 1 l Some m Cons show ?thesis
        by (auto simp: strip_tags_Cons)
    qed
  qed
qed

lemma no_tag_at:
  assumes "c \<noteq> ch CHR ''<'' \<or> r = [] \<or> hd r = ch CHR ''>'' \<or> ch CHR ''>'' \<notin> set r"
  shows "match_at False tag_re (c # r) = None"
proof (cases r)
  case Nil
  then show ?thesis by (simp add: match_at_tag)
next
  case (Cons d ds)
  show ?thesis
  proof (cases "c \<noteq> ch CHR ''<'' \<or> d = ch CHR ''>''")
    case True
    with Cons show ?thesis by (auto simp: match_at_tag)
  next
    case False
    with assms Cons have "ch CHR ''>'' \<notin> set ds" by auto
    then have "dropWhile (\<lambda>x. x \<noteq> ch CHR ''>'') ds = []"
      by (induction ds) auto
    with Cons show ?thesis by (simp add: match_at_tag del: dropWhile_eq_Nil_conv)
  qed
qed

lemma no_tag_at_D:
  assumes "match_at False tag_re (c # r) = None"
  shows "c \<noteq> ch CHR ''<'' \<or> r = [] \<or> hd r = ch CHR ''>'' \<or> ch CHR ''>'' \<notin> set r"
proof (cases r)
  case Nil
  then show ?thesis by simp
next
  case (Cons d ds)
  have "ch CHR ''>'' \<notin> set ds" if "dropWhile (\<lambda>x. x \<noteq> ch CHR ''>'') ds = []"
    using that by (induction ds) (auto split: if_splits)
  with assms Cons show ?thesis
    by (auto simp: match_at_tag split: if_splits list.splits)
qed

lemma SP_not_angle: "SP \<noteq> ch CHR ''<''" "SP \<noteq> ch CHR ''>''" "ch CHR ''>'' \<noteq> ch CHR ''<''"
  by (simp_all add: SP_def ch_def)

lemma strip_tags_leaves_no_tag: "search False tag_re (strip_tags s) = None"
proof (induction s rule: length_induct)
  case (1 s)
  show ?case
  proof (cases s)
    case Nil
    then show ?thesis
      by (simp add: strip_tags_Nil search_Nil match_at_tag)
  next
    case (Cons c cs)
    show ?thesis
    proof (cases "match_at False tag_re s")
      case (Some m)
      obtain cap rest where m: "m = (cap, rest)" by (cases m)
      with Some have "length rest < length s"
        using tag_match_shorter [of s cap rest] by simp
      with 1 have "search False tag_re (strip_tags rest) = None"
        by blast
      with Some m Cons show ?thesis
        by (simp add: strip_tags_Cons search_Cons no_tag_at SP_not_angle)
    next
      case None
      from 1 Cons have ih: "search False tag_re (strip_tags cs) = None"
        by simp
      from None Cons have
        "c \<noteq> ch CHR ''<'' \<or> cs = [] \<or> hd cs = ch CHR ''>'' \<or> ch CHR ''>'' \<notin> set cs"
        using no_tag_at_D by blast
      then have "c \<noteq> ch CHR ''<'' \<or> strip_tags cs = [] \<or> hd (strip_tags cs) = ch CHR ''>'' \<or>
          ch CHR ''>'' \<notin> set (strip_tags cs)"
      proof (elim disjE)
        assume "cs = []"
        then show ?thesis by (simp add: strip_tags_Nil)
      next
        assume h: "hd cs = ch CHR ''>''"
        show ?thesis
        proof (cases cs)
          case Nil
          then show ?thesis by (simp add: strip_tags_Nil)
        next
          case c2: (Cons d ds)
          with h have "strip_tags cs = d # strip_tags ds" "d = ch CHR ''>''"
            by (simp_all add: strip_tags_Cons no_tag_at SP_not_angle)
          then show ?thesis by simp
        qed
      next
        assume "ch CHR ''>'' \<notin> set cs"
        with set_strip_tags [of cs] SP_not_angle show ?thesis
          by auto
      qed simp
      then have "match_at False tag_re (c # strip_tags cs) = None"
        by (rule no_tag_at)
      with None Cons ih show ?thesis
        by (simp add: strip_tags_Cons search_Cons)
    qed
  qed
qed


subsection \<open>Style blocks\<close>

lemma ms_Seq_E:
  assumes "st' \<in> set (ms ic (Seq a b) st)"
  obtains mid where "mid \<in> set (ms ic a st)" "st' \<in> set (ms ic b mid)"
  using assms by auto

lemma ms_Lit_E:
  assumes "st' \<in> set (ms ic (Lit a) st)"
  obtains c where "snd st = c # snd st'" "canon ic c = canon ic a" "fst st' = fst st"
  using assms by (cases st; cases "snd st") (auto split: if_splits)

lemma style_starts_a_tag:
  assumes "match_at True style_re s = Some m"
  shows "match_at False tag_re s \<noteq> None"
proof -
  have m: "m \<in> set (ms True style_re (None, s))"
    using assms by (rule match_at_Some)
  have sr: "style_re =
      Seq (Seq (Lit (ch CHR ''<'')) (Seq (Lit (ch CHR ''s'')) (lits ''tyle'')))
        (Seq (Star True (Cls True [CChar (ch CHR ''>'')]))
          (Seq (Lit (ch CHR ''>'')) (Seq any_lazy (lits ''</style>''))))"
    by (simp add: style_re_def lits_def js_def)
  from m obtain st1 st2 st3 st4 st5 st6 where
    1: "st1 \<in> set (ms True (Lit (ch CHR ''<'')) (None, s))" and
    2: "st2 \<in> set (ms True (Lit (ch CHR ''s'')) st1)" and
    3: "st3 \<in> set (ms True (lits ''tyle'') st2)" and
    4: "st4 \<in> set (ms True (Star True (Cls True [CChar (ch CHR ''>'')])) st3)" and
    5: "st5 \<in> set (ms True (Lit (ch CHR ''>'')) st4)"
    unfolding sr by (elim ms_Seq_E) blast
  from 1 obtain c0 where c0: "s = c0 # snd st1" "canon True c0 = canon True (ch CHR ''<'')"
    by (auto elim: ms_Lit_E)
  from 2 obtain c1 where c1: "snd st1 = c1 # snd st2" "canon True c1 = canon True (ch CHR ''s'')"
    by (auto elim: ms_Lit_E)
  from 5 obtain c5 where c5: "snd st4 = c5 # snd st5" "canon True c5 = canon True (ch CHR ''>'')"
    by (auto elim: ms_Lit_E)
  have e0: "c0 = ch CHR ''<''"
  proof (cases "ch CHR ''a'' \<le> c0 \<and> c0 \<le> ch CHR ''z''")
    case True
    with c0(2) have "c0 - 0x20 = 0x3C"
      by (simp add: canon_def to_upper_def ch_def)
    then have "c0 = 0x5C" by simp
    with True show ?thesis by (simp add: ch_def)
  next
    case False
    with c0(2) show ?thesis
      by (auto simp: canon_def to_upper_def ch_def split: if_splits)
  qed
  have e5: "c5 = ch CHR ''>''"
  proof (cases "ch CHR ''a'' \<le> c5 \<and> c5 \<le> ch CHR ''z''")
    case True
    with c5(2) have "c5 - 0x20 = 0x3E"
      by (simp add: canon_def to_upper_def ch_def)
    then have "c5 = 0x5E" by simp
    with True show ?thesis by (simp add: ch_def)
  next
    case False
    with c5(2) show ?thesis
      by (auto simp: canon_def to_upper_def ch_def split: if_splits)
  qed
  have n1: "c1 \<noteq> ch CHR ''>''"
    using c1(2) by (auto simp: canon_def to_upper_def ch_def)
  have "suffix (snd st4) (snd st3)" "suffix (snd st3) (snd st2)"
    using 3 4 by (auto dest: ms_suffix)
  then have "set (snd st4) \<subseteq> set (snd st2)"
    by (meson set_mono_suffix subset_trans)
  with c5(1) e5 have g: "ch CHR ''>'' \<in> set (snd st2)"
    by auto
  then have "dropWhile (\<lambda>x. x \<noteq> ch CHR ''>'') (snd st2) \<noteq> []"
    by auto
  then obtain x t where "dropWhile (\<lambda>x. x \<noteq> ch CHR ''>'') (snd st2) = x # t"
    by (cases "dropWhile (\<lambda>x. x \<noteq> ch CHR ''>'') (snd st2)") auto
  with c0(1) c1(1) e0 n1 show ?thesis
    by (simp add: match_at_tag)
qed

lemma no_tag_no_style:
  assumes "search False tag_re s = None"
  shows "search True style_re s = None"
proof -
  have "match_at True style_re t = None" if "suffix t s" for t
  proof (cases "match_at True style_re t")
    case None
    then show ?thesis .
  next
    case (Some m)
    then have "match_at False tag_re t \<noteq> None"
      by (rule style_starts_a_tag)
    with assms that show ?thesis
      by (simp add: search_None_iff)
  qed
  then show ?thesis
    by (simp add: search_None_iff)
qed

lemma style_re_shape:
  "style_re = Seq (lits ''<style'') (Seq (Star True (Cls True [CChar (ch CHR ''>'')]))
                (Seq (Lit (ch CHR ''>'')) (Seq any_lazy (lits ''</style>''))))"
  by (simp add: style_re_def)

lemma ms_Lit_GT:
  "ms ic (Lit (ch CHR ''>'')) (cap, s) =
     (case s of [] \<Rightarrow> [] | c # t \<Rightarrow> if c = ch CHR ''>'' then [(cap, t)] else [])"
  by (simp add: canon_nonletter nonletters split: list.splits)

lemma match_style_none: "\<not> ci_prefix (js ''<style'') t \<Longrightarrow> match_at True style_re t = None"
  unfolding match_at_def style_re_shape
  by (simp add: ms_Seq_lits del: ms.simps(1-6) ms.simps(8))

lemma match_style_block:
  assumes "style_block opn attrs body cls v"
  shows "match_at True style_re (opn @ attrs @ ch CHR ''>'' # body @ cls @ v) = Some (None, v)"
proof -
  let ?tail = "Seq (Lit (ch CHR ''>'')) (Seq any_lazy (lits ''</style>''))"
  from assms have o: "ci_eq opn (js ''<style'')" and a: "ch CHR ''>'' \<notin> set attrs"
    and c: "ci_eq cls (js ''</style>'')"
    and nb: "none_before (ci_prefix (js ''</style>'')) body (cls @ v)"
    by (simp_all add: style_block_def)
  let ?X = "attrs @ ch CHR ''>'' # body @ cls @ v"
  have l6: "length (js ''<style'') = length ''<style''"
    by (simp add: js_def)
  have l8: "length (js ''</style>'') = length ''</style>''"
    by (simp add: js_def)
  have po: "ci_prefix (js ''<style'') (opn @ ?X) \<and> drop (length (js ''<style'')) (opn @ ?X) = ?X"
    by (rule ci_eq_prefix [OF o])
  have pc: "ci_prefix (js ''</style>'') (cls @ v) \<and> drop (length (js ''</style>'')) (cls @ v) = v"
    by (rule ci_eq_prefix [OF c])
  have fail: "ms True ?tail (cap, d # u) = []"
    if "cls_has True [CChar (ch CHR ''>'')] d \<noteq> True" for d u cap
    using that by (simp add: cls_gt_ic ms_Lit_GT del: ms.simps(1-3) ms.simps(5-6) ms.simps(8))
  have "ms True (Seq (Star True (Cls True [CChar (ch CHR ''>'')])) ?tail) (None, ?X)
      = ms True ?tail (None, dropWhile (\<lambda>c. cls_has True [CChar (ch CHR ''>'')] c \<noteq> True) ?X)"
    by (rule ms_greedy_class) (rule fail)
  also have "dropWhile (\<lambda>c. cls_has True [CChar (ch CHR ''>'')] c \<noteq> True) ?X
      = ch CHR ''>'' # body @ cls @ v"
  proof -
    from a have "\<And>x. x \<in> set attrs \<Longrightarrow> x \<noteq> ch CHR ''>''"
      by auto
    then have "dropWhile (\<lambda>c. c \<noteq> ch CHR ''>'') ?X
        = dropWhile (\<lambda>c. c \<noteq> ch CHR ''>'') (ch CHR ''>'' # body @ cls @ v)"
      by (rule dropWhile_append2)
    then show ?thesis
      by (simp add: cls_gt_ic)
  qed
  also have "ms True ?tail (None, ch CHR ''>'' # body @ cls @ v)
      = ms True (Seq any_lazy (lits ''</style>'')) (None, body @ cls @ v)"
    by (subst ms.simps(4)) (simp add: ms_Lit_GT del: ms.simps(1-6) ms.simps(8))
  finally have 1: "ms True (Seq (Star True (Cls True [CChar (ch CHR ''>'')])) ?tail) (None, ?X)
      = ms True (Seq any_lazy (lits ''</style>'')) (None, body @ cls @ v)" .
  have "\<And>cap t. \<not> ci_prefix (js ''</style>'') t \<Longrightarrow> ms True (lits ''</style>'') (cap, t) = []"
    by (simp add: ms_lits_only)
  from lazy_scan_first [OF this nb, of None] obtain others where
    "ms True (Seq any_lazy (lits ''</style>'')) (None, body @ cls @ v)
       = ms True (lits ''</style>'') (None, cls @ v) @ others"
    by auto
  with pc have 2: "ms True (Seq any_lazy (lits ''</style>'')) (None, body @ cls @ v)
       = (None, v) # others"
    by (simp add: ms_lits_only l8 del: ms.simps(1-6) ms.simps(8))
  from po have "ms True style_re (None, opn @ ?X)
      = ms True (Seq (Star True (Cls True [CChar (ch CHR ''>'')])) ?tail) (None, ?X)"
    unfolding style_re_shape by (simp add: ms_Seq_lits l6 del: ms.simps(1-6) ms.simps(8))
  with 1 2 show ?thesis
    by (simp add: match_at_def)
qed

lemma strip_styles_block:
  assumes "style_block opn attrs body cls v"
    and "none_before (ci_prefix (js ''<style'')) u (opn @ attrs @ ch CHR ''>'' # body @ cls @ v)"
  shows "strip_styles (u @ opn @ attrs @ ch CHR ''>'' # body @ cls @ v) = u @ strip_styles v"
proof -
  let ?B = "opn @ attrs @ ch CHR ''>'' # body @ cls @ v"
  have "strip_styles (u @ ?B) = u @ strip_styles ?B"
    unfolding strip_styles_def using match_style_none assms(2) by (rule replace_all_skip)
  moreover have "strip_styles ?B = strip_styles v"
    unfolding strip_styles_def
    using replace_all_hit [OF match_style_block [OF assms(1)], of "\<lambda>_. []"] by simp
  ultimately show ?thesis by simp
qed

lemma search_tag_free: "search False tag_re t = None \<longleftrightarrow> tag_free t"
proof (induction t)
  case Nil
  then show ?case by (simp add: search_Nil match_at_tag)
next
  case (Cons c cs)
  have "match_at False tag_re (c # cs) = None \<longleftrightarrow>
      (c = ch CHR ''<'' \<longrightarrow> cs = [] \<or> hd cs = ch CHR ''>'' \<or> ch CHR ''>'' \<notin> set cs)"
    using no_tag_at [of c cs] no_tag_at_D [of c cs] by fastforce
  with Cons show ?case
    by (auto simp: search_Cons split: option.splits)
qed

lemma tag_free_append_right: "tag_free (xs @ ys) \<Longrightarrow> tag_free ys"
  by (induction xs) auto

lemma tag_free_append_left: "tag_free (xs @ ys) \<Longrightarrow> tag_free xs"
proof (induction xs)
  case Nil
  then show ?case by simp
next
  case (Cons c cs)
  then show ?case
    by (cases cs) auto
qed

lemma tag_free_dropWhile: "tag_free s \<Longrightarrow> tag_free (dropWhile P s)"
  by (metis takeWhile_dropWhile_id tag_free_append_right)

lemma tag_free_trim: "tag_free s \<Longrightarrow> tag_free (trim s)"
proof -
  assume "tag_free s"
  then have t: "tag_free (dropWhile is_space s)"
    by (rule tag_free_dropWhile)
  obtain ys where "dropWhile is_space s = trim s @ ys"
    unfolding trim_def using drop_trailing_prefix by blast
  with t show ?thesis
    by (metis tag_free_append_left)
qed

lemma set_squeeze: "set (squeeze s) \<subseteq> insert SP (set s)"
proof (induction s rule: squeeze.induct)
  case 1
  then show ?case by simp
next
  case (2 c cs)
  have "set (dropWhile is_space cs) \<subseteq> set cs"
    by (meson set_dropWhileD subsetI)
  with 2 show ?case by auto
qed

lemma GT_not_space: "\<not> is_space (ch CHR ''>'')" "\<not> is_space (ch CHR ''<'')"
  by (simp_all add: is_space_def ch_def)

lemma tag_free_squeeze: "tag_free s \<Longrightarrow> tag_free (squeeze s)"
proof (induction s rule: squeeze.induct)
  case 1
  then show ?case by simp
next
  case (2 c cs)
  show ?case
  proof (cases "is_space c")
    case True
    from "2.prems" have "tag_free (dropWhile is_space cs)"
      by (simp add: tag_free_dropWhile)
    with True 2 show ?thesis
      by (simp add: SP_not_angle)
  next
    case False
    from "2.prems" have tf: "tag_free cs" by simp
    have "squeeze cs = [] \<or> hd (squeeze cs) = ch CHR ''>'' \<or> ch CHR ''>'' \<notin> set (squeeze cs)"
      if "cs = [] \<or> hd cs = ch CHR ''>'' \<or> ch CHR ''>'' \<notin> set cs"
    proof (cases cs)
      case Nil
      then show ?thesis by simp
    next
      case (Cons d ds)
      show ?thesis
      proof (cases "d = ch CHR ''>''")
        case True
        with Cons show ?thesis by (simp add: GT_not_space)
      next
        case False
        with that Cons have "ch CHR ''>'' \<notin> set cs" by auto
        with set_squeeze [of cs] SP_not_angle show ?thesis by auto
      qed
    qed
    with False 2 tf show ?thesis by auto
  qed
qed

lemma set_replace_all:
  "set (replace_all ic r (\<lambda>_. rep) s) \<subseteq> set rep \<union> set s"
proof (induction s rule: length_induct)
  case (1 s)
  show ?case
  proof (cases "match_at ic r s")
    case None
    then show ?thesis
    proof (cases s)
      case Nil
      with None show ?thesis by (simp add: replace_all.simps [of _ _ _ "[]"])
    next
      case (Cons c cs)
      with None 1 show ?thesis
        by (auto simp: replace_all.simps [of _ _ _ "c # cs"])
    qed
  next
    case (Some m)
    obtain cap rest where m: "m = (cap, rest)" by (cases m)
    from Some m have "suffix rest s"
      using ms_suffix [OF match_at_Some [OF Some]] by simp
    then have sub: "set rest \<subseteq> set s"
      by (rule set_mono_suffix)
    show ?thesis
    proof (cases "length rest < length s")
      case True
      with 1 have "set (replace_all ic r (\<lambda>_. rep) rest) \<subseteq> set rep \<union> set rest"
        by blast
      with Some m True sub show ?thesis
        by (auto simp: replace_all.simps [of _ _ _ s])
    next
      case False
      show ?thesis
      proof (cases s)
        case Nil
        with Some m False show ?thesis by (simp add: replace_all.simps [of _ _ _ "[]"])
      next
        case (Cons c cs)
        with Some m False 1 show ?thesis
          by (auto simp: replace_all.simps [of _ _ _ "c # cs"])
      qed
    qed
  qed
qed

lemma search_lits_None: "\<not> sublist p s \<Longrightarrow> search False (seqs (map Lit p)) s = None"
proof -
  assume n: "\<not> sublist p s"
  have "match_at False (seqs (map Lit p)) t = None" if "suffix t s" for t
  proof -
    from that n have "\<not> prefix p t"
      by (metis sublist_altdef')
    then show ?thesis by (simp add: match_at_lits)
  qed
  then show ?thesis by (simp add: search_None_iff)
qed

lemma replace_lit_absent: "\<not> sublist (js p) s \<Longrightarrow> replace_lit p b s = s"
  unfolding replace_lit_def lits_def
  by (rule replace_all_no_match) (rule search_lits_None)

lemma sublist_hd: "sublist (a # p) s \<Longrightarrow> a \<in> set s"
  by (metis list.set_intros(1) set_mono_sublist subsetD)

lemma decode_entities_plain: "ch CHR ''&'' \<notin> set s \<Longrightarrow> decode_entities s = s"
proof -
  assume n: "ch CHR ''&'' \<notin> set s"
  have "\<not> sublist (js p) s" if "hd p = CHR ''&''" "p \<noteq> []" for p
  proof
    assume "sublist (js p) s"
    moreover from that obtain q where "js p = ch CHR ''&'' # q"
      by (cases p) (auto simp: js_def)
    ultimately show False
      using n sublist_hd by metis
  qed
  then show ?thesis
    by (simp add: decode_entities_def replace_lit_absent)
qed

lemma drop_soft_breaks_plain: "ch CHR ''='' \<notin> set s \<Longrightarrow> drop_soft_breaks s = s"
  by (induction s) auto

lemma hex_escape_needs_eq: "match_at False hex_escape_re s = Some m \<Longrightarrow> ch CHR ''='' \<in> set s"
proof (cases s)
  case Nil
  assume "match_at False hex_escape_re s = Some m"
  with Nil show ?thesis
    by (simp add: match_at_def hex_escape_re_def)
next
  case (Cons c cs)
  assume m: "match_at False hex_escape_re s = Some m"
  have "c = ch CHR ''=''"
  proof (rule ccontr)
    assume "c \<noteq> ch CHR ''=''"
    then have "ms False hex_escape_re (None, c # cs) = []"
      by (simp add: hex_escape_re_def canon_def)
    with m Cons show False
      by (simp add: match_at_def)
  qed
  with Cons show ?thesis by simp
qed

lemma decode_hex_plain: "ch CHR ''='' \<notin> set s \<Longrightarrow> decode_hex_escapes s = s"
proof -
  assume n: "ch CHR ''='' \<notin> set s"
  have "match_at False hex_escape_re t = None" if "suffix t s" for t
  proof (cases "match_at False hex_escape_re t")
    case None
    then show ?thesis .
  next
    case (Some m)
    then have "ch CHR ''='' \<in> set t" by (rule hex_escape_needs_eq)
    with that n show ?thesis
      by (meson set_mono_suffix subsetD)
  qed
  then have "search False hex_escape_re s = None"
    by (simp add: search_None_iff)
  then show ?thesis
    unfolding decode_hex_escapes_def by (rule replace_all_no_match)
qed

lemma cleanBody_plain: "ch CHR ''='' \<notin> set s \<Longrightarrow> cleanBody s = trim (squeeze s)"
  by (simp add: cleanBody_def remove_soft_breaks_direct drop_soft_breaks_plain decode_hex_plain
      collapse_spaces_squeeze)

lemma html_result_tag_free:
  assumes "ch CHR ''&'' \<notin> set g" and "ch CHR ''='' \<notin> set g"
  shows "search False tag_re (cleanBody (html_to_text g)) = None"
proof -
  let ?t = "strip_tags (strip_styles g)"
  have "set (strip_styles g) \<subseteq> set g"
    unfolding strip_styles_def using set_replace_all [of True style_re "[]" g] by simp
  with set_strip_tags [of "strip_styles g"] have "set ?t \<subseteq> insert SP (set g)"
    by auto
  with assms have a: "ch CHR ''&'' \<notin> set ?t" and e: "ch CHR ''='' \<notin> set ?t"
    by (auto simp: SP_def ch_def)
  have "tag_free ?t"
    using strip_tags_leaves_no_tag [of "strip_styles g"] by (simp add: search_tag_free)
  then have "tag_free (trim (squeeze ?t))"
    by (simp add: tag_free_squeeze tag_free_trim)
  with a e show ?thesis
    by (simp add: html_to_text_def decode_entities_plain cleanBody_plain search_tag_free)
qed

lemma entities_without_amp:
  assumes "\<not> sublist (js ''&amp;'') t"
  shows "\<not> sublist (js ''&nbsp;'') (decode_entities t) \<and>
         \<not> sublist (js ''&lt;'') (decode_entities t) \<and>
         \<not> sublist (js ''&gt;'') (decode_entities t)"
proof -
  let ?n = "replace_lit ''&nbsp;'' '' '' t"
  let ?l = "replace_lit ''&lt;'' ''<'' ?n"
  let ?g = "replace_lit ''&gt;'' ''>'' ?l"
  have keep: "sublist (js q) (replace_lit p b z) \<Longrightarrow> sublist (js q) z"
    if "js p \<noteq> []" "js b \<noteq> []" "set (js q) \<inter> set (js b) = {}" for q p b z
    unfolding replace_lit_def lits_def using that by (rule sublist_replace_lits)
  have gone: "\<not> sublist (js p) (replace_lit p b z)"
    if "js p \<noteq> []" "js b \<noteq> []" "set (js p) \<inter> set (js b) = {}" for p b z
    unfolding replace_lit_def lits_def using that by (rule replace_lits_removes)
  have ne: "js ''&nbsp;'' \<noteq> []" "js ''&lt;'' \<noteq> []" "js ''&gt;'' \<noteq> []"
    "js '' '' \<noteq> []" "js ''<'' \<noteq> []" "js ''>'' \<noteq> []"
    by (simp_all add: js_def)
  have d1: "set (js ''&amp;'') \<inter> set (js '' '') = {}"
    "set (js ''&nbsp;'') \<inter> set (js '' '') = {}"
    "set (js ''&nbsp;'') \<inter> set (js ''<'') = {}"
    "set (js ''&nbsp;'') \<inter> set (js ''>'') = {}"
    "set (js ''&lt;'') \<inter> set (js ''<'') = {}"
    "set (js ''&lt;'') \<inter> set (js ''>'') = {}"
    "set (js ''&gt;'') \<inter> set (js ''>'') = {}"
    by (simp_all add: js_def ch_def)
  have "\<not> sublist (js ''&amp;'') ?n"
    using assms keep [OF ne(1) ne(4) d1(1)] by blast
  then have d: "decode_entities t = ?g"
    by (simp add: decode_entities_def replace_lit_absent)
  have n1: "\<not> sublist (js ''&nbsp;'') ?n"
    by (rule gone [OF ne(1) ne(4) d1(2)])
  have n2: "\<not> sublist (js ''&nbsp;'') ?l"
    using n1 keep [OF ne(2) ne(5) d1(3)] by blast
  have n3: "\<not> sublist (js ''&nbsp;'') ?g"
    using n2 keep [OF ne(3) ne(6) d1(4)] by blast
  have l1: "\<not> sublist (js ''&lt;'') ?l"
    by (rule gone [OF ne(2) ne(5) d1(5)])
  have l2: "\<not> sublist (js ''&lt;'') ?g"
    using l1 keep [OF ne(3) ne(6) d1(6)] by blast
  have g1: "\<not> sublist (js ''&gt;'') ?g"
    by (rule gone [OF ne(3) ne(6) d1(7)])
  from n3 l2 g1 show ?thesis
    by (simp only: d) simp
qed

lemma doc_page_plain: "search True plain_re doc_page = None"
  by (simp add: doc_page_def g_page_def re_defs ev_defs)

lemma doc_page_html: "search True html_re doc_page = Some (Some g_page, [])"
  by (simp add: doc_page_def g_page_def re_defs ev_defs)

lemma doc_entities_plain: "search True plain_re doc_entities = None"
  by (simp add: doc_entities_def re_defs ev_defs)

lemma doc_entities_html: "search True html_re doc_entities = Some (Some (js ''a&nbsp;&lt;b&gt;c''), [])"
  by (simp add: doc_entities_def re_defs ev_defs)

text \<open>
  C6. Without a plain-text match and with an HTML match, the result is the clean step
  applied to the captured text after the removal of style blocks, the replacement of
  tags by a space and the replacement of the entities. The text after the replacement
  of tags has no tag left. A style block in front of which no \<open><style\<close> begins is
  removed together with its contents. When the captured text has no \<open>&\<close> and no
  \<open>=\<close>, the result itself has no tag and no style block. When the text after the
  replacement of tags has no \<open>&amp;\<close>, none of \<open>&nbsp;\<close>, \<open>&lt;\<close> and \<open>&gt;\<close> is left in
  the text handed to the clean step.
\<close>

theorem html_branch_strips_styles_and_tags:
  assumes "search True plain_re raw = None" and "search True html_re raw = Some m"
  shows "\<exists>g. fst m = Some g \<and>
     extractTextBody raw = Inr (cleanBody (decode_entities (strip_tags (strip_styles g)))) \<and>
     search False tag_re (strip_tags (strip_styles g)) = None \<and>
     (\<forall>u opn attrs body cls v.
        g = u @ opn @ attrs @ ch CHR ''>'' # body @ cls @ v \<and> style_block opn attrs body cls v \<and>
        none_before (ci_prefix (js ''<style'')) u (opn @ attrs @ ch CHR ''>'' # body @ cls @ v)
        \<longrightarrow> strip_styles g = u @ strip_styles v) \<and>
     (ch CHR ''&'' \<notin> set g \<and> ch CHR ''='' \<notin> set g \<longrightarrow>
        (\<exists>body. extractTextBody raw = Inr body \<and> search False tag_re body = None \<and>
                search True style_re body = None)) \<and>
     (\<not> sublist (js ''&amp;'') (strip_tags (strip_styles g)) \<longrightarrow>
        \<not> sublist (js ''&nbsp;'') (decode_entities (strip_tags (strip_styles g))) \<and>
        \<not> sublist (js ''&lt;'') (decode_entities (strip_tags (strip_styles g))) \<and>
        \<not> sublist (js ''&gt;'') (decode_entities (strip_tags (strip_styles g))))"
proof -
  from search_group1 [OF caps_html_re assms(2)] obtain g where g: "fst m = Some g" ..
  with assms have r: "extractTextBody raw = Inr (cleanBody (decode_entities (strip_tags (strip_styles g))))"
    by (simp add: extractTextBody_def group1_def html_to_text_def)
  have t: "search False tag_re (strip_tags (strip_styles g)) = None"
    by (rule strip_tags_leaves_no_tag)
  have s: "\<forall>u opn attrs body cls v.
        g = u @ opn @ attrs @ ch CHR ''>'' # body @ cls @ v \<and> style_block opn attrs body cls v \<and>
        none_before (ci_prefix (js ''<style'')) u (opn @ attrs @ ch CHR ''>'' # body @ cls @ v)
        \<longrightarrow> strip_styles g = u @ strip_styles v"
    using strip_styles_block by blast
  have d: "ch CHR ''&'' \<notin> set g \<and> ch CHR ''='' \<notin> set g \<longrightarrow>
        (\<exists>body. extractTextBody raw = Inr body \<and> search False tag_re body = None \<and>
                search True style_re body = None)"
  proof
    assume "ch CHR ''&'' \<notin> set g \<and> ch CHR ''='' \<notin> set g"
    then have "search False tag_re (cleanBody (html_to_text g)) = None"
      by (simp add: html_result_tag_free)
    with r show "\<exists>body. extractTextBody raw = Inr body \<and> search False tag_re body = None \<and>
                search True style_re body = None"
      by (simp add: html_to_text_def no_tag_no_style)
  qed
  from g r t s d entities_without_amp [of "strip_tags (strip_styles g)"] show ?thesis
    by blast
qed

theorem html_branch_strips_styles_and_tags_witness:
  "search True plain_re doc_page = None \<and>
   search True html_re doc_page = Some (Some g_page, []) \<and>
   strip_styles g_page = js ''<p>Hi <b>you</b></p>'' \<and>
   extractTextBody doc_page = Inr (js ''Hi you'') \<and>
   search False tag_re (js ''Hi you'') = None \<and>
   search True plain_re doc_entities = None \<and>
   search True html_re doc_entities = Some (Some (js ''a&nbsp;&lt;b&gt;c''), []) \<and>
   \<not> sublist (js ''&amp;'') (strip_tags (strip_styles (js ''a&nbsp;&lt;b&gt;c''))) \<and>
   \<not> sublist (js ''&lt;'') (decode_entities (strip_tags (strip_styles (js ''a&nbsp;&lt;b&gt;c'')))) \<and>
   extractTextBody doc_entities = Inr (js ''a <b>c'')"
proof -
  have blk: "style_block (js ''<STYLE'') (js '' media'') (js ''p{}'') (js ''</Style>'')
      (js ''Hi <b>you</b></p>'')"
    by (simp add: style_block_def ci_eq_def ci_prefix_def js_def ch_def to_upper_def)
  have nb: "none_before (ci_prefix (js ''<style'')) (js ''<p>'')
      (js ''<STYLE'' @ js '' media'' @ ch CHR ''>'' # js ''p{}'' @ js ''</Style>'' @ js ''Hi <b>you</b></p>'')"
    by (simp add: ci_prefix_def js_def ch_def to_upper_def)
  have free: "ch CHR ''&'' \<notin> set g_page \<and> ch CHR ''='' \<notin> set g_page"
    by (simp add: g_page_def js_def ch_def)
  have rest: "strip_styles (js ''Hi <b>you</b></p>'') = js ''Hi <b>you</b></p>''"
    by (simp add: extract_defs re_defs ev_defs)
  have body: "cleanBody (decode_entities (strip_tags (js ''<p>Hi <b>you</b></p>''))) = js ''Hi you''"
    by (simp add: extract_defs clean_defs re_defs ev_defs)
  have st: "strip_tags (strip_styles (js ''a&nbsp;&lt;b&gt;c'')) = js ''a&nbsp;&lt;b&gt;c''"
    by (simp add: extract_defs re_defs ev_defs)
  have na: "\<not> sublist (js ''&amp;'') (js ''a&nbsp;&lt;b&gt;c'')"
    by (simp add: js_def ch_def sublist_Cons_right)
  have eb: "cleanBody (decode_entities (js ''a&nbsp;&lt;b&gt;c'')) = js ''a <b>c''"
    by (simp add: extract_defs clean_defs re_defs ev_defs)
  from html_branch_strips_styles_and_tags [OF doc_page_plain doc_page_html] blk nb free have
    p1: "strip_styles g_page = js ''<p>'' @ strip_styles (js ''Hi <b>you</b></p>'')" and
    p2: "extractTextBody doc_page = Inr (cleanBody (decode_entities (strip_tags (strip_styles g_page))))" and
    p3: "\<exists>body. extractTextBody doc_page = Inr body \<and> search False tag_re body = None"
    unfolding g_page_def by auto
  from html_branch_strips_styles_and_tags [OF doc_entities_plain doc_entities_html] na st have
    e1: "\<not> sublist (js ''&lt;'') (decode_entities (strip_tags (strip_styles (js ''a&nbsp;&lt;b&gt;c''))))" and
    e2: "extractTextBody doc_entities = Inr (cleanBody (decode_entities (strip_tags (strip_styles (js ''a&nbsp;&lt;b&gt;c'')))))"
    by auto
  have j: "js ''<p>'' @ js ''Hi <b>you</b></p>'' = js ''<p>Hi <b>you</b></p>''"
    by (simp add: js_def)
  from p1 rest j have s1: "strip_styles g_page = js ''<p>Hi <b>you</b></p>''"
    by simp
  with p2 body have x1: "extractTextBody doc_page = Inr (js ''Hi you'')"
    by simp
  with p3 have x2: "search False tag_re (js ''Hi you'') = None"
    by simp
  from e2 st eb have x3: "extractTextBody doc_entities = Inr (js ''a <b>c'')"
    by simp
  from doc_page_plain doc_page_html s1 x1 x2 doc_entities_plain doc_entities_html na st e1 x3
  show ?thesis
    by simp
qed

text \<open>
  The result itself can hold a tag: the text \<open>&lt;b&gt;\<close> of an HTML part is decoded
  to \<open><b>\<close>.
\<close>

theorem html_result_can_hold_a_tag:
  "search True plain_re doc_escaped_tag = None \<and>
   search True html_re doc_escaped_tag = Some (Some (js ''&lt;b&gt;''), []) \<and>
   extractTextBody doc_escaped_tag = Inr (js ''<b>'') \<and>
   search False tag_re (js ''<b>'') = Some (None, [])"
  by (simp add: doc_escaped_tag_def extract_defs clean_defs re_defs ev_defs)

section \<open>The handler: payload, delivery and subject\<close>

text \<open>Filling the buffer chunk by chunk gives the chunks one after the other.\<close>

lemma total_length: "fold (\<lambda>arr sum. sum + length arr) arrays n = n + length (concat arrays)"
  by (induction arrays arbitrary: n) auto

lemma fill_from:
  "offset + length (concat arrays) \<le> length res \<Longrightarrow>
   fold (\<lambda>arr (res, offset). (set_at res arr offset, offset + length arr)) arrays (res, offset) =
     (take offset res @ concat arrays @ drop (offset + length (concat arrays)) res,
      offset + length (concat arrays))"
proof (induction arrays arbitrary: res offset)
  case Nil
  then show ?case by simp
next
  case (Cons a arrays)
  let ?res = "set_at res a offset"
  from Cons.prems have l: "offset + length a \<le> length res"
    by simp
  then have len: "length ?res = length res"
    by (simp add: set_at_def)
  from l have t: "take (offset + length a) ?res = take offset res @ a"
    by (simp add: set_at_def)
  from l have d: "drop (offset + (length a + n)) ?res = drop (offset + (length a + n)) res" for n
    by (simp add: set_at_def ac_simps)
  from Cons.prems len have "offset + length a + length (concat arrays) \<le> length ?res"
    by simp
  from Cons.IH [OF this] show ?case
    by (simp add: t d add.assoc)
qed

lemma concatenate_concat: "concatenate arrays = concat arrays"
  using fill_from [of 0 arrays "replicate (length (concat arrays)) 0"]
  by (simp add: concatenate_def total_length)

lemma email_hi:
  "email p_down m_hi e_hook =
     \<lparr>logs = [Log (js ''Email received: from=a@x subject='' @ dquote @ js ''(no subject)''
                   @ dquote),
              LogError (js ''Webhook POST failed: refused'')],
      posts = [req_hi], result = Inr ()\<rparr>"
  by code_simp

lemma email_posts_cases:
  "posts (email p m e) = [] \<or>
   (\<exists>chunks body. read_all (msg_raw m) [] = Inr chunks \<and>
      extractTextBody (decode p (concatenate chunks)) = Inr body \<and>
      posts (email p m e) =
        [\<lparr>req_url = WEBHOOK_URL e, req_method = js ''POST'',
          req_headers = [(js ''Content-Type'', js ''application/json'')],
          req_body = build_payload (msg_from m) (msg_to m)
             (or_default (msg_headers m (js ''subject'')) (js ''(no subject)'')) body
             (now_iso p)\<rparr>])"
  by (auto simp: email_def Let_def split: sum.splits)

text \<open>
  C8. The body of a built payload has at most 2000 code units and is a prefix of the
  extracted body it was built from; so has every payload that the handler posts, the
  extracted body being that of the decoded raw message.
\<close>

theorem payload_body_bounded:
  "length (pl_body (build_payload from to subject body now)) \<le> 2000 \<and>
   prefix (pl_body (build_payload from to subject body now)) body \<and>
   (\<forall>req \<in> set (posts (email p m e)).
      length (pl_body (req_body req)) \<le> 2000 \<and>
      (\<exists>chunks b. read_all (msg_raw m) [] = Inr chunks \<and>
          extractTextBody (decode p (concatenate chunks)) = Inr b \<and>
          prefix (pl_body (req_body req)) b))"
  using email_posts_cases [of p m e]
  by (auto simp: build_payload_def take_is_prefix)

theorem payload_body_bounded_witness:
  "req_hi \<in> set (posts (email p_down m_hi e_hook)) \<and>
   length (pl_body (req_body req_hi)) \<le> 2000 \<and>
   (\<exists>chunks b. read_all (msg_raw m_hi) [] = Inr chunks \<and>
          extractTextBody (decode p_down (concatenate chunks)) = Inr b \<and>
          prefix (pl_body (req_body req_hi)) b)"
proof -
  have h: "req_hi \<in> set (posts (email p_down m_hi e_hook))"
    by (simp add: email_hi)
  from payload_body_bounded [of _ _ _ _ _ p_down m_hi e_hook] h show ?thesis
    by blast
qed

text \<open>
  C9. The handler posts at most once. When the platform rejects the request it posted,
  the handler still completes without raising, that request is the only one, and the
  log ends with the failure line that renders the error.
\<close>

theorem post_failure_is_logged_and_swallowed:
  "length (posts (email p m e)) \<le> 1 \<and>
   (\<forall>req err. req \<in> set (posts (email p m e)) \<and> fetch p req = Inl err \<longrightarrow>
      result (email p m e) = Inr () \<and>
      posts (email p m e) = [req] \<and>
      logs (email p m e) =
        [Log (js ''Email received: from='' @ msg_from m @ js '' subject='' @ dquote
              @ or_default (msg_headers m (js ''subject'')) (js ''(no subject)'') @ dquote),
         LogError (js ''Webhook POST failed: '' @ render err)])"
  by (auto simp: email_def Let_def split: sum.splits)

theorem post_failure_is_logged_and_swallowed_witness:
  "req_hi \<in> set (posts (email p_down m_hi e_hook)) \<and>
   fetch p_down req_hi = Inl (Thrown (js ''refused'')) \<and>
   result (email p_down m_hi e_hook) = Inr () \<and>
   posts (email p_down m_hi e_hook) = [req_hi] \<and>
   last (logs (email p_down m_hi e_hook)) = LogError (js ''Webhook POST failed: refused'')"
proof -
  have h: "req_hi \<in> set (posts (email p_down m_hi e_hook))"
    by (simp add: email_hi)
  have f: "fetch p_down req_hi = Inl (Thrown (js ''refused''))"
    by (simp add: p_down_def)
  have r: "render (Thrown (js ''refused'')) = js ''refused''"
    by (simp add: render_def)
  have j: "js ''Webhook POST failed: '' @ js ''refused'' = js ''Webhook POST failed: refused''"
    by (simp add: js_def)
  from post_failure_is_logged_and_swallowed [of p_down m_hi e_hook] h f r j show ?thesis
    by (metis last.simps list.distinct(1))
qed

text \<open>
  C10. A subject header that is present but empty is falsy: the subject of the payload
  is the default \<open>(no subject)\<close>.
\<close>

theorem empty_subject_gets_default:
  "msg_headers m (js ''subject'') = Some [] \<Longrightarrow>
   or_default (msg_headers m (js ''subject'')) (js ''(no subject)'') = js ''(no subject)'' \<and>
   (\<forall>req \<in> set (posts (email p m e)). pl_subject (req_body req) = js ''(no subject)'')"
  using email_posts_cases [of p m e]
  by (auto simp: or_default_def build_payload_def)

theorem empty_subject_gets_default_witness:
  "msg_headers m_hi (js ''subject'') = Some [] \<and>
   req_hi \<in> set (posts (email p_down m_hi e_hook)) \<and>
   pl_subject (req_body req_hi) = js ''(no subject)''"
proof -
  have s: "msg_headers m_hi (js ''subject'') = Some []"
    by (simp add: m_hi_def)
  have h: "req_hi \<in> set (posts (email p_down m_hi e_hook))"
    by (simp add: email_hi)
  from empty_subject_gets_default [OF s, of p_down e_hook] s h show ?thesis
    by blast
qed

end
